theory Spec2Isabelle
  imports Complex_Main "HOL-Library.Sublist"
begin

section \<open>Python values used by the downloader\<close>

text \<open>
  Exceptions of \<^verbatim>\<open>video_downloader.py\<close> as values. \<open>SystemExit\<close> is what
  \<^verbatim>\<open>sys.exit(1)\<close> raises; it derives from \<^verbatim>\<open>BaseException\<close> only, so an
  \<^verbatim>\<open>except Exception\<close> clause does not catch it.
\<close>

datatype exn =
    SystemExit int
  | FileNotFoundError
  | ValueError
  | KeyError
  | OSError
  | TimeoutExpired
  | EOFError
  | AttributeError
  | OtherException

fun is_Exception :: "exn \<Rightarrow> bool" where
  "is_Exception (SystemExit c) = False"
| "is_Exception e = True"

subsection \<open>Strings: \<^verbatim>\<open>str.strip\<close>, \<^verbatim>\<open>int(s)\<close>, \<^verbatim>\<open>str(n)\<close>, \<^verbatim>\<open>str.endswith\<close>\<close>

text \<open>
  The ASCII characters for which \<^verbatim>\<open>str.isspace\<close> holds: tab, line feed, vertical tab,
  form feed, carriage return, the four separators \<^verbatim>\<open>\x1c\<close>..\<^verbatim>\<open>\x1f\<close> and the space.
\<close>

definition is_space :: "char \<Rightarrow> bool" where
  "is_space c = (let n = (of_char c :: nat) in (9 \<le> n \<and> n \<le> 13) \<or> (28 \<le> n \<and> n \<le> 32))"

definition strip :: "string \<Rightarrow> string" where
  "strip s = rev (dropWhile is_space (rev (dropWhile is_space s)))"

definition digit_val :: "char \<Rightarrow> nat option" where
  "digit_val c = (let n = (of_char c :: nat) in if 48 \<le> n \<and> n \<le> 57 then Some (n - 48) else None)"

text \<open>
  The digits of a decimal literal after its first digit: a single underscore is allowed
  between two digits, nothing else.
\<close>

fun py_digits :: "nat \<Rightarrow> string \<Rightarrow> nat option" where
  "py_digits acc [] = Some acc"
| "py_digits acc (c # cs) =
     (if c = CHR ''_'' then
        (case cs of
           [] \<Rightarrow> None
         | d # ds \<Rightarrow> (case digit_val d of None \<Rightarrow> None | Some v \<Rightarrow> py_digits (10 * acc + v) ds))
      else (case digit_val c of None \<Rightarrow> None | Some v \<Rightarrow> py_digits (10 * acc + v) cs))"

definition py_unsigned :: "string \<Rightarrow> nat option" where
  "py_unsigned s =
     (case s of
        [] \<Rightarrow> None
      | c # cs \<Rightarrow> (case digit_val c of None \<Rightarrow> None | Some v \<Rightarrow> py_digits v cs))"

text \<open>
  \<^verbatim>\<open>int(s)\<close> in base 10: surrounding whitespace is dropped, one sign may precede the
  digits; \<open>None\<close> stands for the \<^verbatim>\<open>ValueError\<close> that Python raises.
\<close>

definition py_int :: "string \<Rightarrow> int option" where
  "py_int s =
     (case strip s of
        [] \<Rightarrow> None
      | c # r \<Rightarrow>
          if c = CHR ''-'' then map_option (\<lambda>n. - int n) (py_unsigned r)
          else if c = CHR ''+'' then map_option int (py_unsigned r)
          else map_option int (py_unsigned (c # r)))"

definition digit_char :: "nat \<Rightarrow> char" where
  "digit_char d = ''0123456789'' ! d"

fun str_nat :: "nat \<Rightarrow> string" where
  "str_nat n = (if n < 10 then [digit_char n] else str_nat (n div 10) @ [digit_char (n mod 10)])"

declare str_nat.simps [simp del]

definition str_int :: "int \<Rightarrow> string" where
  "str_int i = (if i < 0 then CHR ''-'' # str_nat (nat (- i)) else str_nat (nat i))"

definition endswith :: "string \<Rightarrow> string \<Rightarrow> bool" where
  "endswith s sfx = (length sfx \<le> length s \<and> drop (length s - length sfx) s = sfx)"

definition startswith :: "string \<Rightarrow> string \<Rightarrow> bool" where
  "startswith s pfx = (take (length pfx) s = pfx)"

subsection \<open>Paths: \<^verbatim>\<open>os.path.join\<close>, \<^verbatim>\<open>os.path.splitext\<close>, \<^verbatim>\<open>os.path.basename\<close>\<close>

text \<open>
  \<^verbatim>\<open>str.rfind\<close> of a single character: the highest index at which it occurs, \<open>-1\<close> when
  it does not occur.
\<close>

fun rfind :: "string \<Rightarrow> char \<Rightarrow> int" where
  "rfind [] c = -1"
| "rfind (x # xs) c =
     (let r = rfind xs c in if 0 \<le> r then r + 1 else if x = c then 0 else -1)"

text \<open>The POSIX \<^verbatim>\<open>os.path.join\<close> of two components, and of three as the source calls it.\<close>

definition path_join :: "string \<Rightarrow> string \<Rightarrow> string" where
  "path_join a b =
     (if startswith b ''/'' then b
      else if a = [] \<or> endswith a ''/'' then a @ b
      else a @ ''/'' @ b)"

definition path_join3 :: "string \<Rightarrow> string \<Rightarrow> string \<Rightarrow> string" where
  "path_join3 a b c = path_join (path_join a b) c"

text \<open>
  \<^verbatim>\<open>os.path.splitext\<close>: the extension starts at the last dot, provided that dot comes
  after the last separator and some character of the file name before it is not a dot;
  otherwise the extension is empty.
\<close>

definition splitext :: "string \<Rightarrow> string \<times> string" where
  "splitext p =
     (let sepIndex = rfind p CHR ''/''; dotIndex = rfind p CHR ''.'' in
      if dotIndex > sepIndex \<and>
         list_ex (\<lambda>c. c \<noteq> CHR ''.'') (drop (nat (sepIndex + 1)) (take (nat dotIndex) p))
      then (take (nat dotIndex) p, drop (nat dotIndex) p)
      else (p, []))"

definition basename :: "string \<Rightarrow> string" where
  "basename p = drop (nat (rfind p CHR ''/'' + 1)) p"

section \<open>The progress ledger and the work list\<close>

text \<open>
  A text file is the list of lines that iterating over it yields; \<open>None\<close> is a path at
  which no file exists. \<^verbatim>\<open>load_progress\<close> builds the set line by line and the first
  line that \<^verbatim>\<open>int\<close> rejects raises \<^verbatim>\<open>ValueError\<close>.
\<close>

fun load_lines :: "string list \<Rightarrow> exn + int set" where
  "load_lines [] = Inr {}"
| "load_lines (l # ls) =
     (if strip l = [] then load_lines ls
      else (case py_int (strip l) of
              None \<Rightarrow> Inl ValueError
            | Some n \<Rightarrow> (case load_lines ls of Inl e \<Rightarrow> Inl e | Inr S \<Rightarrow> Inr (insert n S))))"

definition load_progress :: "string list option \<Rightarrow> exn + int set" where
  "load_progress f = (case f of None \<Rightarrow> Inr {} | Some ls \<Rightarrow> load_lines ls)"

text \<open>
  \<^verbatim>\<open>Series.unique()\<close> of pandas is library code: it returns the distinct values in
  order of appearance, which a scan with the values seen so far computes.
\<close>

fun unique_from :: "'a list \<Rightarrow> 'a list \<Rightarrow> 'a list" where
  "unique_from seen [] = []"
| "unique_from seen (x # xs) =
     (if x \<in> set seen then unique_from seen xs else x # unique_from (x # seen) xs)"

definition unique :: "'a list \<Rightarrow> 'a list" where
  "unique xs = unique_from [] xs"

text \<open>
  The work list as the specification words it: the values of the column at the positions
  where a value is seen for the first time, in the order of those positions.
\<close>

definition first_seen :: "'a list \<Rightarrow> 'a list" where
  "first_seen xs = map (\<lambda>i. xs ! i) [i \<leftarrow> [0..<length xs]. xs ! i \<notin> set (take i xs)]"

definition remaining_avids :: "int list \<Rightarrow> int set \<Rightarrow> int list" where
  "remaining_avids avid_list completed_avids = [avid \<leftarrow> avid_list. avid \<notin> completed_avids]"

section \<open>The world outside the downloader\<close>

text \<open>
  What the proxy-issuing service answers to one GET: no answer at all, a body that is not
  JSON, or a JSON object with its \<^verbatim>\<open>ret\<close> member (\<open>None\<close> when absent) and its
  \<^verbatim>\<open>data\<close> list, each entry with its \<^verbatim>\<open>ip\<close> and \<^verbatim>\<open>port\<close> members when present.
\<close>

datatype reply =
    Transport_Error
  | Not_Json
  | Json "int option" "(string option \<times> string option) list"

text \<open>How \<^verbatim>\<open>subprocess.run\<close> ends: the exit status, the timeout, or a failure to launch.\<close>

datatype run_outcome = Exited int | Timed_Out | Launch_Failed

text \<open>What \<^verbatim>\<open>pd.read_csv(...)['avid']\<close> gives.\<close>

datatype csv_source = Missing_File | Unreadable | Avid_Column "int list"

datatype event =
    Http_Get string
  | Sleep real
  | Makedirs string
  | Shell string
  | Exec "string list"
  | Prompt

text \<open>
  The environment of one run: the table, the answer of the service to its \<open>n\<close>-th request,
  the time the \<open>n\<close>-th external action takes, and the outcome of each external action by
  its argument.
\<close>

record env =
  csv :: csv_source
  service :: "nat \<Rightarrow> reply"
  duration :: "nat \<Rightarrow> real"
  makedirs_fails :: "string \<Rightarrow> bool"
  download :: "int \<Rightarrow> run_outcome"
  walk :: "string \<Rightarrow> (string \<times> string list) list"
  ffmpeg :: "string \<Rightarrow> run_outcome"
  stdin_eof :: "nat \<Rightarrow> bool"

text \<open>The fields of \<^verbatim>\<open>VideoDownloader\<close> that \<^verbatim>\<open>__init__\<close> sets from its arguments.\<close>

record downloader =
  ip_url :: string
  output_dir :: string

text \<open>
  An instance attribute that \<^verbatim>\<open>__init__\<close> does not assign: reading it before its
  first assignment raises \<^verbatim>\<open>AttributeError\<close>.
\<close>

datatype 'a attribute = Unassigned | Assigned 'a

text \<open>
  The mutable state: the clock that \<^verbatim>\<open>time.time()\<close> reads (a real number of
  seconds), the number of requests sent, the external actions in order, the lines of
  \<^verbatim>\<open>error_log.txt\<close> and of \<^verbatim>\<open>progress_log.txt\<close> (\<open>None\<close> while that file does not
  exist), and the attributes \<^verbatim>\<open>self.proxy\<close> (\<open>Assigned None\<close> is Python's
  \<^verbatim>\<open>None\<close>) and \<^verbatim>\<open>self.proxy_fetch_time\<close>, which only \<^verbatim>\<open>get_ip\<close> and
  \<^verbatim>\<open>check_ip_validity\<close> assign. The operational log and the progress bar are left
  out: nothing reads them. \<^verbatim>\<open>self.start_time\<close> is assigned by the main block before
  \<^verbatim>\<open>run\<close> and only printed.
\<close>

record world =
  now :: real
  requests :: nat
  trace :: "event list"
  error_log :: "string list"
  progress_log :: "string list option"
  proxy :: "string option attribute"
  proxy_fetch_time :: "real attribute"

text \<open>
  An external action is recorded and takes the time the environment gives it;
  \<^verbatim>\<open>time.sleep(d)\<close> takes \<open>d\<close> seconds; a ledger append adds one line.
\<close>

definition perform :: "env \<Rightarrow> event \<Rightarrow> world \<Rightarrow> world" where
  "perform E e w = w\<lparr>now := now w + duration E (length (trace w)), trace := trace w @ [e]\<rparr>"

definition sleep :: "real \<Rightarrow> world \<Rightarrow> world" where
  "sleep d w = w\<lparr>now := now w + d, trace := trace w @ [Sleep d]\<rparr>"

definition log_error :: "string \<Rightarrow> world \<Rightarrow> world" where
  "log_error label w = w\<lparr>error_log := error_log w @ [label]\<rparr>"

definition log_progress :: "int \<Rightarrow> world \<Rightarrow> world" where
  "log_progress completed_avid w =
     w\<lparr>progress_log :=
         Some ((case progress_log w of None \<Rightarrow> [] | Some ls \<Rightarrow> ls) @ [str_int completed_avid])\<rparr>"

section \<open>The proxy lease\<close>

text \<open>
  The \<^verbatim>\<open>ip\<close> and \<^verbatim>\<open>port\<close> members are kept as the text that \<^verbatim>\<open>%s\<close> formats.
  One attempt of \<^verbatim>\<open>get_ip\<close> leaves the loop only when the body is JSON, its
  \<^verbatim>\<open>ret\<close> is 200 and \<^verbatim>\<open>data[0]\<close> exists (the log message reads it); every other
  answer ends in \<^verbatim>\<open>time.sleep(5)\<close> and the next attempt.
\<close>

fun usable :: "reply \<Rightarrow> (string option \<times> string option) option" where
  "usable (Json (Some ret) (d # ds)) = (if ret = 200 then Some d else None)"
| "usable r = None"

fun fetch_loop ::
  "env \<Rightarrow> string \<Rightarrow> nat \<Rightarrow> world \<Rightarrow> (string option \<times> string option) option \<times> world" where
  "fetch_loop E url 0 w = (None, w)"
| "fetch_loop E url (Suc k) w =
     (let r = service E (requests w);
          w1 = (perform E (Http_Get url) w)\<lparr>requests := Suc (requests w)\<rparr>
      in case usable r of
           Some d \<Rightarrow> (Some d, w1)
         | None \<Rightarrow> fetch_loop E url k (sleep 5 w1))"

definition max_retries :: nat where
  "max_retries = 5"

definition get_ip :: "env \<Rightarrow> string \<Rightarrow> world \<Rightarrow> (exn + string) \<times> world" where
  "get_ip E url w =
     (case fetch_loop E url max_retries w of
        (None, w1) \<Rightarrow> (Inl (SystemExit 1), w1)
      | (Some (Some ip, Some port), w1) \<Rightarrow>
          (let p = ''http://'' @ ip @ '':'' @ port
           in (Inr p, w1\<lparr>proxy := Assigned (Some p), proxy_fetch_time := Assigned (now w1)\<rparr>))
      | (Some _, w1) \<Rightarrow> (Inl KeyError, w1))"

text \<open>
  \<^verbatim>\<open>check_ip_validity\<close> reads \<^verbatim>\<open>self.proxy\<close> first and, only when that is not
  \<^verbatim>\<open>None\<close>, the clock and \<^verbatim>\<open>self.proxy_fetch_time\<close>; on either condition it
  assigns the result of \<^verbatim>\<open>get_ip\<close> to \<^verbatim>\<open>self.proxy\<close>.
\<close>

definition check_ip_validity :: "env \<Rightarrow> downloader \<Rightarrow> world \<Rightarrow> (exn + unit) \<times> world" where
  "check_ip_validity E self w =
     (let fetch_new =
        (case get_ip E (ip_url self) w of
           (Inl e, w1) \<Rightarrow> (Inl e, w1)
         | (Inr p, w1) \<Rightarrow> (Inr (), w1\<lparr>proxy := Assigned (Some p)\<rparr>))
      in case proxy w of
           Unassigned \<Rightarrow> (Inl AttributeError, w)
         | Assigned None \<Rightarrow> fetch_new
         | Assigned (Some p) \<Rightarrow>
             (case proxy_fetch_time w of
                Unassigned \<Rightarrow> (Inl AttributeError, w)
              | Assigned t \<Rightarrow> if now w - t > 300 then fetch_new else (Inr (), w)))"

section \<open>Processing one item\<close>

definition makedirs :: "env \<Rightarrow> string \<Rightarrow> world \<Rightarrow> (exn + unit) \<times> world" where
  "makedirs E p w =
     (if makedirs_fails E p then (Inl OSError, perform E (Makedirs p) w)
      else (Inr (), perform E (Makedirs p) w))"

definition create_directories ::
  "env \<Rightarrow> downloader \<Rightarrow> int \<Rightarrow> world \<Rightarrow> (exn + string \<times> string \<times> string) \<times> world" where
  "create_directories E self avid w =
     (let merge_path = path_join3 (output_dir self) (str_int avid) ''merge'';
          audio_only_path = path_join3 (output_dir self) (str_int avid) ''audio_only'';
          video_only_path = path_join3 (output_dir self) (str_int avid) ''video_only''
      in case makedirs E merge_path w of
           (Inl e, w1) \<Rightarrow> (Inl e, w1)
         | (Inr _, w1) \<Rightarrow>
             (case makedirs E audio_only_path w1 of
                (Inl e, w2) \<Rightarrow> (Inl e, w2)
              | (Inr _, w2) \<Rightarrow>
                  (case makedirs E video_only_path w2 of
                     (Inl e, w3) \<Rightarrow> (Inl e, w3)
                   | (Inr _, w3) \<Rightarrow> (Inr (merge_path, audio_only_path, video_only_path), w3))))"

definition yutto_command :: "int \<Rightarrow> string \<Rightarrow> string \<Rightarrow> string" where
  "yutto_command avid proxy_url merge_path =
     ''yutto https://www.bilibili.com/video/av'' @ str_int avid @ ''/ --with-metadata -d '' @
     merge_path @ '' --proxy '' @ proxy_url @ '' --no-progress -w''"

text \<open>
  \<^verbatim>\<open>generate_and_run_commands\<close> catches every failure of the download itself, writes
  the item to the error ledger and returns normally.
\<close>

definition generate_and_run_commands :: "env \<Rightarrow> int \<Rightarrow> string \<Rightarrow> string \<Rightarrow> world \<Rightarrow> world" where
  "generate_and_run_commands E avid proxy_url merge_path w =
     (let w1 = perform E (Shell (yutto_command avid proxy_url merge_path)) w
      in case download E avid of
           Exited returncode \<Rightarrow> if returncode \<noteq> 0 then log_error (str_int avid) w1 else w1
         | Timed_Out \<Rightarrow> log_error (str_int avid) w1
         | Launch_Failed \<Rightarrow> log_error (str_int avid) w1)"

definition cover_path :: "string \<Rightarrow> string" where
  "cover_path video_path = fst (splitext video_path) @ ''.jpg''"

definition ffmpeg_command :: "string \<Rightarrow> string list" where
  "ffmpeg_command video_path =
     [''ffmpeg'', ''-loglevel'', ''quiet'', ''-i'', video_path,
      ''-map'', ''0:v'', ''-map'', ''-0:V'', ''-c'', ''copy'', cover_path video_path]"

text \<open>
  \<^verbatim>\<open>extract_cover_image\<close> catches \<^verbatim>\<open>CalledProcessError\<close> (a non-zero exit status
  under \<^verbatim>\<open>check=True\<close>) and nothing else: the timeout and a failure to launch leave it
  as exceptions.
\<close>

definition extract_cover_image :: "env \<Rightarrow> string \<Rightarrow> world \<Rightarrow> (exn + unit) \<times> world" where
  "extract_cover_image E video_path w =
     (let w1 = perform E (Exec (ffmpeg_command video_path)) w
      in case ffmpeg E video_path of
           Exited returncode \<Rightarrow>
             if returncode = 0 then (Inr (), w1)
             else (Inr (), log_error (basename video_path) w1)
         | Timed_Out \<Rightarrow> (Inl TimeoutExpired, w1)
         | Launch_Failed \<Rightarrow> (Inl OSError, w1))"

fun cover_files :: "env \<Rightarrow> string \<Rightarrow> string list \<Rightarrow> world \<Rightarrow> (exn + unit) \<times> world" where
  "cover_files E root_dir [] w = (Inr (), w)"
| "cover_files E root_dir (file # files) w =
     (if endswith file ''.mp4'' then
        (case extract_cover_image E (path_join root_dir file) w of
           (Inl e, w1) \<Rightarrow> (Inl e, w1)
         | (Inr _, w1) \<Rightarrow> cover_files E root_dir files w1)
      else cover_files E root_dir files w)"

fun cover_walk :: "env \<Rightarrow> (string \<times> string list) list \<Rightarrow> world \<Rightarrow> (exn + unit) \<times> world" where
  "cover_walk E [] w = (Inr (), w)"
| "cover_walk E ((root_dir, files) # dirs) w =
     (case cover_files E root_dir files w of
        (Inl e, w1) \<Rightarrow> (Inl e, w1)
      | (Inr _, w1) \<Rightarrow> cover_walk E dirs w1)"

text \<open>How the f-string of the command renders the value of \<^verbatim>\<open>self.proxy\<close>.\<close>

definition proxy_text :: "string option \<Rightarrow> string" where
  "proxy_text v = (case v of None \<Rightarrow> ''None'' | Some p \<Rightarrow> p)"

text \<open>The body of the inner \<^verbatim>\<open>try\<close> of \<^verbatim>\<open>run\<close>, for the item at position \<open>index\<close>.\<close>

definition process_item ::
  "env \<Rightarrow> downloader \<Rightarrow> int \<Rightarrow> nat \<Rightarrow> world \<Rightarrow> (exn + unit) \<times> world" where
  "process_item E self avid index w =
     (case create_directories E self avid w of
        (Inl e, w1) \<Rightarrow> (Inl e, w1)
      | (Inr (merge_path, audio_only_path, video_only_path), w1) \<Rightarrow>
          (case proxy w1 of
             Unassigned \<Rightarrow> (Inl AttributeError, w1)
           | Assigned v \<Rightarrow>
               (let w2 = generate_and_run_commands E avid (proxy_text v) merge_path w1
                in case cover_walk E (walk E merge_path) w2 of
                     (Inl e, w3) \<Rightarrow> (Inl e, w3)
                   | (Inr _, w3) \<Rightarrow>
                       (let w4 = log_progress avid w3
                        in if index mod 1000 = 0 then
                             (if stdin_eof E index then (Inl EOFError, perform E Prompt w4)
                              else (Inr (), perform E Prompt w4))
                           else (Inr (), w4)))))"

text \<open>The inner \<^verbatim>\<open>try\<close> with its handler \<^verbatim>\<open>except Exception\<close>.\<close>

definition guarded_item ::
  "env \<Rightarrow> downloader \<Rightarrow> int \<Rightarrow> nat \<Rightarrow> world \<Rightarrow> (exn + unit) \<times> world" where
  "guarded_item E self avid index w =
     (case process_item E self avid index w of
        (Inl e, w1) \<Rightarrow>
          if is_Exception e then (Inr (), log_error (str_int avid) w1) else (Inl e, w1)
      | (Inr u, w1) \<Rightarrow> (Inr u, w1))"

section \<open>The batch driver\<close>

fun run_items ::
  "env \<Rightarrow> downloader \<Rightarrow> nat \<Rightarrow> int list \<Rightarrow> world \<Rightarrow> (exn + unit) \<times> world" where
  "run_items E self index [] w = (Inr (), w)"
| "run_items E self index (avid # avids) w =
     (case check_ip_validity E self w of
        (Inl e, w1) \<Rightarrow> (Inl e, w1)
      | (Inr _, w1) \<Rightarrow>
          (case guarded_item E self avid index w1 of
             (Inl e, w2) \<Rightarrow> (Inl e, w2)
           | (Inr _, w2) \<Rightarrow> run_items E self (Suc index) avids w2))"

text \<open>The body of the outer \<^verbatim>\<open>try\<close> of \<^verbatim>\<open>run\<close>.\<close>

definition run_body :: "env \<Rightarrow> downloader \<Rightarrow> world \<Rightarrow> (exn + unit) \<times> world" where
  "run_body E self w =
     (case csv E of
        Missing_File \<Rightarrow> (Inl FileNotFoundError, w)
      | Unreadable \<Rightarrow> (Inl OtherException, w)
      | Avid_Column column \<Rightarrow>
          (let avid_list = unique column
           in case load_progress (progress_log w) of
                Inl e \<Rightarrow> (Inl e, w)
              | Inr completed_avids \<Rightarrow>
                  (let remaining = remaining_avids avid_list completed_avids
                   in case get_ip E (ip_url self) w of
                        (Inl e, w1) \<Rightarrow> (Inl e, w1)
                      | (Inr _, w1) \<Rightarrow> run_items E self 1 remaining w1)))"

text \<open>
  \<^verbatim>\<open>run\<close>: both handlers of the outer \<^verbatim>\<open>try\<close> call \<^verbatim>\<open>sys.exit(1)\<close>; a
  \<^verbatim>\<open>SystemExit\<close> raised inside passes through them.
\<close>

definition run :: "env \<Rightarrow> downloader \<Rightarrow> world \<Rightarrow> (exn + unit) \<times> world" where
  "run E self w =
     (case run_body E self w of
        (Inl e, w1) \<Rightarrow>
          if e = FileNotFoundError then (Inl (SystemExit 1), w1)
          else if is_Exception e then (Inl (SystemExit 1), w1)
          else (Inl e, w1)
      | (Inr u, w1) \<Rightarrow> (Inr u, w1))"

text \<open>The exit status of the process that called \<^verbatim>\<open>run\<close> last.\<close>

fun exit_status :: "exn + 'a \<Rightarrow> int" where
  "exit_status (Inl (SystemExit c)) = c"
| "exit_status (Inl e) = 1"
| "exit_status (Inr u) = 0"

section \<open>Append-only ledgers\<close>

text \<open>The lines of the progress ledger, none when the file does not exist.\<close>

definition progress_lines :: "world \<Rightarrow> string list" where
  "progress_lines w = (case progress_log w of None \<Rightarrow> [] | Some ls \<Rightarrow> ls)"

text \<open>
  A later world extends an earlier one: the actions performed and the lines of the two
  ledgers are only ever added at the end.
\<close>

definition grows :: "world \<Rightarrow> world \<Rightarrow> bool" where
  "grows w w' =
     (prefix (trace w) (trace w') \<and> prefix (error_log w) (error_log w') \<and>
      prefix (progress_lines w) (progress_lines w'))"

text \<open>
  A world in which \<^verbatim>\<open>check_ip_validity\<close> can read the lease: \<^verbatim>\<open>self.proxy\<close> has
  been assigned and, unless it is \<^verbatim>\<open>None\<close>, so has \<^verbatim>\<open>self.proxy_fetch_time\<close>. Every
  successful \<^verbatim>\<open>get_ip\<close> leaves such a world, and \<^verbatim>\<open>run\<close> calls \<^verbatim>\<open>get_ip\<close> before
  its loop.
\<close>

definition lease_attributes_set :: "world \<Rightarrow> bool" where
  "lease_attributes_set w =
     (case proxy w of
        Unassigned \<Rightarrow> False
      | Assigned None \<Rightarrow> True
      | Assigned (Some p) \<Rightarrow>
          (case proxy_fetch_time w of Unassigned \<Rightarrow> False | Assigned t \<Rightarrow> True))"

text \<open>The runs of the cover-extraction tool among the external actions.\<close>

fun is_exec :: "event \<Rightarrow> bool" where
  "is_exec (Exec argv) = True"
| "is_exec e = False"

text \<open>The merge directory of an item, as \<^verbatim>\<open>create_directories\<close> builds it.\<close>

definition merge_dir :: "downloader \<Rightarrow> int \<Rightarrow> string" where
  "merge_dir self avid = path_join3 (output_dir self) (str_int avid) ''merge''"

text \<open>
  The files that a walk lists and whose names end with \<^verbatim>\<open>.mp4\<close>, as paths, in the
  order of the walk.
\<close>

definition mp4_paths :: "(string \<times> string list) list \<Rightarrow> string list" where
  "mp4_paths dirs =
     concat (map (\<lambda>(root_dir, files).
                    map (path_join root_dir) (filter (\<lambda>file. endswith file ''.mp4'') files))
                 dirs)"

section \<open>Concrete scenarios\<close>

definition example_downloader :: downloader where
  "example_downloader = \<lparr>ip_url = ''http://issuer/get'', output_dir = ''small_output/batch''\<rparr>"

text \<open>
  A freshly constructed downloader: no ledger file exists and neither lease attribute has
  been assigned.
\<close>

definition fresh_world :: world where
  "fresh_world =
     \<lparr>now = 1000, requests = 0, trace = [], error_log = [], progress_log = None,
      proxy = Unassigned, proxy_fetch_time = Unassigned\<rparr>"


text \<open>
  The service never issues a proxy: a transport error, then a body that is not JSON, then
  status 500 for ever.
\<close>

definition env_service_down :: env where
  "env_service_down =
     \<lparr>csv = Avid_Column [101, 102],
      service = (\<lambda>n. if n = 0 then Transport_Error else if n = 1 then Not_Json
                      else Json (Some 500) [(Some ''10.0.0.1'', Some ''8080'')]),
      duration = (\<lambda>n. 1),
      makedirs_fails = (\<lambda>p. False),
      download = (\<lambda>a. Exited 0),
      walk = (\<lambda>p. []),
      ffmpeg = (\<lambda>p. Exited 0),
      stdin_eof = (\<lambda>n. False)\<rparr>"

text \<open>
  The service always issues \<^verbatim>\<open>10.0.0.1:8080\<close>, every external action takes one second
  and succeeds, and the download of item 101 leaves one video and its metadata file.
\<close>

definition env_all_well :: env where
  "env_all_well =
     \<lparr>csv = Avid_Column [101, 102],
      service = (\<lambda>n. Json (Some 200) [(Some ''10.0.0.1'', Some ''8080'')]),
      duration = (\<lambda>n. 1),
      makedirs_fails = (\<lambda>p. False),
      download = (\<lambda>a. Exited 0),
      walk = (\<lambda>p. if p = ''small_output/batch/101/merge''
                   then [(''small_output/batch/101/merge'', [''video.mp4'', ''video.nfo''])]
                   else []),
      ffmpeg = (\<lambda>p. Exited 0),
      stdin_eof = (\<lambda>n. False)\<rparr>"


text \<open>The download of item 102 runs into its timeout.\<close>

definition env_download_times_out :: env where
  "env_download_times_out =
     env_all_well\<lparr>download := (\<lambda>a. if a = 102 then Timed_Out else Exited 0)\<rparr>"

text \<open>Every cover extraction runs into its timeout.\<close>

definition env_cover_times_out :: env where
  "env_cover_times_out = env_all_well\<lparr>ffmpeg := (\<lambda>p. Timed_Out)\<rparr>"

text \<open>A progress ledger whose second line is not an integer.\<close>

definition corrupt_ledger_world :: world where
  "corrupt_ledger_world = fresh_world\<lparr>progress_log := Some [''101'', ''abc'']\<rparr>"

text \<open>
  The service issues one proxy and then stops answering; every external action takes 45
  seconds and item 101 has three videos, so that the lease is older than 300 seconds
  when item 102 is reached.
\<close>

definition env_lease_lost :: env where
  "env_lease_lost =
     env_all_well
       \<lparr>service := (\<lambda>n. if n = 0 then Json (Some 200) [(Some ''10.0.0.1'', Some ''8080'')]
                        else Transport_Error),
        duration := (\<lambda>n. 45),
        walk := (\<lambda>p. if p = ''small_output/batch/101/merge''
                      then [(''small_output/batch/101/merge'',
                             [''p1.mp4'', ''p2.mp4'', ''p3.mp4''])]
                      else [])\<rparr>"

text \<open>
  Three items: the download of 101 exits with status 1, a directory of 102 cannot be
  created, 103 goes well.
\<close>

definition env_bad_items :: env where
  "env_bad_items =
     env_all_well
       \<lparr>csv := Avid_Column [101, 102, 103],
        download := (\<lambda>a. if a = 101 then Exited 1 else Exited 0),
        makedirs_fails := (\<lambda>p. p = ''small_output/batch/102/audio_only'')\<rparr>"

text \<open>The world of a first run once the initial proxy has been fetched.\<close>

definition first_lease_world :: world where
  "first_lease_world =
     \<lparr>now = 1001, requests = 1, trace = [Http_Get ''http://issuer/get''], error_log = [],
      progress_log = None, proxy = Assigned (Some ''http://10.0.0.1:8080''),
      proxy_fetch_time = Assigned 1001\<rparr>"

text \<open>
  The worlds of \<open>env_lease_lost\<close>: with the first lease, after item 101, and after the
  failed refresh.
\<close>

definition lease_lost_leased :: world where
  "lease_lost_leased = first_lease_world\<lparr>now := 1045, proxy_fetch_time := Assigned 1045\<rparr>"

definition lease_lost_after_101 :: world where
  "lease_lost_after_101 =
     \<lparr>now = 1360, requests = 1,
      trace =
        [Http_Get ''http://issuer/get'',
         Makedirs ''small_output/batch/101/merge'',
         Makedirs ''small_output/batch/101/audio_only'',
         Makedirs ''small_output/batch/101/video_only'',
         Shell (yutto_command 101 ''http://10.0.0.1:8080'' ''small_output/batch/101/merge''),
         Exec (ffmpeg_command ''small_output/batch/101/merge/p1.mp4''),
         Exec (ffmpeg_command ''small_output/batch/101/merge/p2.mp4''),
         Exec (ffmpeg_command ''small_output/batch/101/merge/p3.mp4'')],
      error_log = [], progress_log = Some [''101''],
      proxy = Assigned (Some ''http://10.0.0.1:8080''), proxy_fetch_time = Assigned 1045\<rparr>"

definition lease_lost_aborted :: world where
  "lease_lost_aborted =
     lease_lost_after_101
       \<lparr>now := 1610, requests := 6,
        trace := trace lease_lost_after_101 @
          [Http_Get ''http://issuer/get'', Sleep 5, Http_Get ''http://issuer/get'', Sleep 5,
           Http_Get ''http://issuer/get'', Sleep 5, Http_Get ''http://issuer/get'', Sleep 5,
           Http_Get ''http://issuer/get'', Sleep 5]\<rparr>"

text \<open>The world of \<open>env_bad_items\<close> after item 101.\<close>

definition bad_items_after_101 :: world where
  "bad_items_after_101 =
     \<lparr>now = 1006, requests = 1,
      trace =
        [Http_Get ''http://issuer/get'',
         Makedirs ''small_output/batch/101/merge'',
         Makedirs ''small_output/batch/101/audio_only'',
         Makedirs ''small_output/batch/101/video_only'',
         Shell (yutto_command 101 ''http://10.0.0.1:8080'' ''small_output/batch/101/merge''),
         Exec (ffmpeg_command ''small_output/batch/101/merge/video.mp4'')],
      error_log = [''101''], progress_log = Some [''101''],
      proxy = Assigned (Some ''http://10.0.0.1:8080''), proxy_fetch_time = Assigned 1001\<rparr>"

text \<open>Every cover extraction exits with status 1.\<close>

definition env_cover_fails :: env where
  "env_cover_fails = env_all_well\<lparr>ffmpeg := (\<lambda>p. Exited 1)\<rparr>"

section \<open>Properties of the work list and of the progress ledger\<close>

lemma unique_from_set: "set (unique_from seen xs) = set xs - set seen"
  by (induction xs arbitrary: seen) auto

lemma unique_from_distinct: "distinct (unique_from seen xs)"
  by (induction xs arbitrary: seen) (auto simp: unique_from_set)

lemma upt_shift: "[0..<Suc n] = 0 # map Suc [0..<n]"
  by (simp add: upt_conv_Cons map_Suc_upt del: upt_Suc)

lemma unique_from_first_seen:
  "unique_from seen xs =
     map (\<lambda>i. xs ! i) [i \<leftarrow> [0..<length xs]. xs ! i \<notin> set seen \<union> set (take i xs)]"
proof (induction xs arbitrary: seen)
  case Nil
  show ?case by simp
next
  case (Cons x xs)
  have shift: "[0..<length (x # xs)] = 0 # map Suc [0..<length xs]"
    using upt_shift [of "length xs"] by simp
  show ?case
  proof (cases "x \<in> set seen")
    case True
    then have same: "filter (\<lambda>i. xs ! i \<notin> set seen \<and> xs ! i \<noteq> x \<and> xs ! i \<notin> set (take i xs)) [0..<length xs] =
        filter (\<lambda>i. xs ! i \<notin> set seen \<and> xs ! i \<notin> set (take i xs)) [0..<length xs]"
      by (intro filter_cong) auto
    show ?thesis
      using True Cons.IH [of seen]
      by (simp only: shift) (simp add: filter_map comp_def same)
  next
    case False
    have same: "filter (\<lambda>i. xs ! i \<notin> set seen \<and> xs ! i \<noteq> x \<and> xs ! i \<notin> set (take i xs)) [0..<length xs] =
        filter (\<lambda>i. xs ! i \<noteq> x \<and> xs ! i \<notin> set seen \<and> xs ! i \<notin> set (take i xs)) [0..<length xs]"
      by (intro filter_cong) auto
    show ?thesis
      using False Cons.IH [of "x # seen"]
      by (simp only: shift) (simp add: filter_map comp_def same)
  qed
qed

text \<open>
  Claim C6. The work list read from the table has no duplicates, holds the values of the
  column, and keeps them in first-seen order; the remaining work is that list without the
  completed identifiers, in the same order. The column \<open>[5, 3, 5, 3, 7]\<close> with an empty
  progress ledger leaves \<open>[5, 3, 7]\<close>.
\<close>

theorem work_list_first_seen_order:
  "distinct (unique xs) \<and> set (unique xs) = set xs \<and> unique xs = first_seen xs \<and>
  remaining_avids (unique column) completed = [a \<leftarrow> first_seen column. a \<notin> completed] \<and>
  load_progress (Some []) = Inr {} \<and>
  remaining_avids (unique [5, 3, 5, 3, 7]) {} = [5, 3, 7]"
proof -
  have a: "distinct (unique xs)" by (simp add: unique_def unique_from_distinct)
  have b: "set (unique xs) = set xs" by (simp add: unique_def unique_from_set)
  have c: "unique ys = first_seen ys" for ys :: "'b list"
    by (simp add: unique_def first_seen_def unique_from_first_seen)
  have d: "remaining_avids (unique column) completed = [a \<leftarrow> first_seen column. a \<notin> completed]"
    by (simp only: c remaining_avids_def)
  have e: "load_progress (Some []) = Inr {}" by (simp add: load_progress_def)
  have f: "remaining_avids (unique [5, 3, 5, 3, 7]) {} = [5, 3, 7]"
    by (simp add: unique_def remaining_avids_def)
  from a b c d e f show ?thesis by blast
qed

lemma load_lines_ok:
  assumes "\<forall>l \<in> set ls. strip l \<noteq> [] \<longrightarrow> py_int (strip l) \<noteq> None"
  shows "load_lines ls = Inr {n. \<exists>l \<in> set ls. strip l \<noteq> [] \<and> py_int (strip l) = Some n}"
  using assms
proof (induction ls)
  case Nil
  show ?case by simp
next
  case (Cons l ls)
  then have IH: "load_lines ls = Inr {n. \<exists>l \<in> set ls. strip l \<noteq> [] \<and> py_int (strip l) = Some n}"
    by simp
  show ?case
  proof (cases "strip l = []")
    case True
    then show ?thesis using IH by simp
  next
    case False
    with Cons.prems obtain n where n: "py_int (strip l) = Some n" by auto
    show ?thesis using False n IH by auto
  qed
qed

lemma load_lines_bad:
  assumes "\<exists>l \<in> set ls. strip l \<noteq> [] \<and> py_int (strip l) = None"
  shows "load_lines ls = Inl ValueError"
  using assms
proof (induction ls)
  case Nil
  then show ?case by simp
next
  case (Cons l ls)
  show ?case
  proof (cases "strip l = []")
    case True
    with Cons show ?thesis by auto
  next
    case False
    show ?thesis
    proof (cases "py_int (strip l)")
      case None
      with False show ?thesis by simp
    next
      case (Some n)
      with Cons.prems have "\<exists>l \<in> set ls. strip l \<noteq> [] \<and> py_int (strip l) = None" by auto
      with Cons.IH have "load_lines ls = Inl ValueError" by simp
      with False Some show ?thesis by simp
    qed
  qed
qed

text \<open>
  Claim C8. \<^verbatim>\<open>load_progress\<close> returns the empty set when the progress log does not
  exist; when it exists and each of its non-blank lines parses as an integer, it returns
  the set of the integers of the non-blank lines, one per line, and blank lines
  contribute nothing.
\<close>

theorem load_progress_spec:
  "load_progress None = Inr {} \<and>
   ((\<forall>l \<in> set ls. strip l \<noteq> [] \<longrightarrow> py_int (strip l) \<noteq> None) \<longrightarrow>
    load_progress (Some ls) = Inr {n. \<exists>l \<in> set ls. strip l \<noteq> [] \<and> py_int (strip l) = Some n})"
  by (simp add: load_progress_def load_lines_ok)

theorem load_progress_spec_witness:
  "load_progress (Some [''12'', ''  '', '' 7 '', '''']) = Inr {12, 7} \<and>
   {n. \<exists>l \<in> set [''12'', ''  '', '' 7 '', '''']. strip l \<noteq> [] \<and> py_int (strip l) = Some n} = {12, 7}"
proof -
  have h: "\<forall>l \<in> set [''12'', ''  '', '' 7 '', '''']. strip l \<noteq> [] \<longrightarrow> py_int (strip l) \<noteq> None"
    by code_simp
  have v: "load_progress (Some [''12'', ''  '', '' 7 '', '''']) = Inr {12, 7}"
    by code_simp
  from load_progress_spec [of "[''12'', ''  '', '' 7 '', '''']"] h
  have "load_progress (Some [''12'', ''  '', '' 7 '', '''']) =
     Inr {n. \<exists>l \<in> set [''12'', ''  '', '' 7 '', '''']. strip l \<noteq> [] \<and> py_int (strip l) = Some n}"
    by blast
  with v show ?thesis by simp
qed

section \<open>Properties of the proxy lease\<close>

lemma perform_frame [simp]:
  "error_log (perform E e w) = error_log w"
  "progress_log (perform E e w) = progress_log w"
  "proxy (perform E e w) = proxy w"
  "proxy_fetch_time (perform E e w) = proxy_fetch_time w"
  "requests (perform E e w) = requests w"
  "trace (perform E e w) = trace w @ [e]"
  by (simp_all add: perform_def)

lemma sleep_frame [simp]:
  "error_log (sleep d w) = error_log w"
  "progress_log (sleep d w) = progress_log w"
  "proxy (sleep d w) = proxy w"
  "proxy_fetch_time (sleep d w) = proxy_fetch_time w"
  "requests (sleep d w) = requests w"
  "trace (sleep d w) = trace w @ [Sleep d]"
  "now (sleep d w) = now w + d"
  by (simp_all add: sleep_def)

lemma fetch_loop_frame:
  "error_log (snd (fetch_loop E url k w)) = error_log w \<and>
   progress_log (snd (fetch_loop E url k w)) = progress_log w \<and>
   proxy (snd (fetch_loop E url k w)) = proxy w \<and>
   proxy_fetch_time (snd (fetch_loop E url k w)) = proxy_fetch_time w"
  by (induction k arbitrary: w) (simp_all add: Let_def split: option.splits)


lemma fetch_loop_all_fail:
  assumes "\<forall>n. usable (service E n) = None"
  shows "fst (fetch_loop E url k w) = None \<and>
     trace (snd (fetch_loop E url k w)) = trace w @ concat (replicate k [Http_Get url, Sleep 5]) \<and>
     requests (snd (fetch_loop E url k w)) = requests w + k"
  using assms by (induction k arbitrary: w) (simp_all add: Let_def)

lemma get_ip_world:
  "requests (snd (get_ip E url w)) = requests (snd (fetch_loop E url max_retries w)) \<and>
   trace (snd (get_ip E url w)) = trace (snd (fetch_loop E url max_retries w)) \<and>
   error_log (snd (get_ip E url w)) = error_log w \<and>
   progress_log (snd (get_ip E url w)) = progress_log w"
  using fetch_loop_frame [of E url max_retries w]
  by (cases "fetch_loop E url max_retries w")
     (auto simp: get_ip_def Let_def split: option.splits prod.splits)

lemma get_ip_raises:
  "fst (get_ip E url w) = Inl e \<Longrightarrow> e = SystemExit 1 \<or> e = KeyError"
  by (auto simp: get_ip_def Let_def split: option.splits prod.splits)

text \<open>
  Claim C3. When every answer of the proxy-issuing service is a transport error, a body
  that is not JSON, or a status other than 200, \<^verbatim>\<open>get_ip\<close> sends exactly five requests,
  sleeps five seconds after each of them, and raises \<^verbatim>\<open>SystemExit(1)\<close>; \<^verbatim>\<open>run\<close>
  lets it through, so the process ends with exit status 1.
\<close>

theorem get_ip_exhausts_retries:
  assumes "\<forall>n. service E n = Transport_Error \<or> service E n = Not_Json \<or>
               (\<exists>ret data. service E n = Json ret data \<and> ret \<noteq> Some 200)"
  shows "fst (get_ip E url w) = Inl (SystemExit 1) \<and>
     requests (snd (get_ip E url w)) = requests w + 5 \<and>
     trace (snd (get_ip E url w)) =
       trace w @ [Http_Get url, Sleep 5, Http_Get url, Sleep 5, Http_Get url, Sleep 5,
                  Http_Get url, Sleep 5, Http_Get url, Sleep 5] \<and>
     exit_status (fst (get_ip E url w)) = 1 \<and>
     (csv E = Avid_Column column \<and> load_progress (progress_log w) = Inr completed \<longrightarrow>
        run E self w = (Inl (SystemExit 1), snd (get_ip E (ip_url self) w)))"
proof -
  have fail: "\<forall>n. usable (service E n) = None"
  proof
    fix n
    from assms have "service E n = Transport_Error \<or> service E n = Not_Json \<or>
               (\<exists>ret data. service E n = Json ret data \<and> ret \<noteq> Some 200)" by blast
    then show "usable (service E n) = None"
      by (cases "service E n" rule: usable.cases) auto
  qed
  have none: "fst (fetch_loop E u max_retries w) = None" for u
    using fetch_loop_all_fail [OF fail] by blast
  have a: "fst (get_ip E u w) = Inl (SystemExit 1)" for u
    using none [of u] by (cases "fetch_loop E u max_retries w") (simp add: get_ip_def)
  have b: "requests (snd (get_ip E url w)) = requests w + 5"
    using get_ip_world [of E url w] fetch_loop_all_fail [OF fail, of url max_retries w]
    by (simp add: max_retries_def)
  have c: "trace (snd (get_ip E url w)) =
       trace w @ [Http_Get url, Sleep 5, Http_Get url, Sleep 5, Http_Get url, Sleep 5,
                  Http_Get url, Sleep 5, Http_Get url, Sleep 5]"
    using get_ip_world [of E url w] fetch_loop_all_fail [OF fail, of url max_retries w]
    by (simp add: max_retries_def eval_nat_numeral)
  have d: "exit_status (fst (get_ip E url w)) = 1" by (simp add: a)
  have e: "csv E = Avid_Column column \<and> load_progress (progress_log w) = Inr completed \<longrightarrow>
        run E self w = (Inl (SystemExit 1), snd (get_ip E (ip_url self) w))"
    using a [of "ip_url self"]
    by (cases "get_ip E (ip_url self) w") (auto simp: run_def run_body_def Let_def)
  from a b c d e show ?thesis by blast
qed

theorem get_ip_exhausts_retries_witness:
  "(\<forall>n. service env_service_down n = Transport_Error \<or> service env_service_down n = Not_Json \<or>
        (\<exists>ret data. service env_service_down n = Json ret data \<and> ret \<noteq> Some 200)) \<and>
   fst (get_ip env_service_down ''http://issuer/get'' fresh_world) = Inl (SystemExit 1) \<and>
   requests (snd (get_ip env_service_down ''http://issuer/get'' fresh_world)) = 5 \<and>
   length (trace (snd (get_ip env_service_down ''http://issuer/get'' fresh_world))) = 10 \<and>
   run env_service_down example_downloader fresh_world =
     (Inl (SystemExit 1), snd (get_ip env_service_down ''http://issuer/get'' fresh_world))"
proof -
  have h: "\<forall>n. service env_service_down n = Transport_Error \<or> service env_service_down n = Not_Json \<or>
        (\<exists>ret data. service env_service_down n = Json ret data \<and> ret \<noteq> Some 200)"
    by (simp add: env_service_down_def)
  have c: "csv env_service_down = Avid_Column [101, 102]" by (simp add: env_service_down_def)
  have l: "load_progress (progress_log fresh_world) = Inr {}"
    by (simp add: fresh_world_def load_progress_def)
  have t: "trace fresh_world = []" "requests fresh_world = 0" "ip_url example_downloader = ''http://issuer/get''"
    by (simp_all add: fresh_world_def example_downloader_def)
  from get_ip_exhausts_retries [OF h, of "''http://issuer/get''" fresh_world "[101, 102]" "{}" example_downloader] h c l t
  show ?thesis by simp
qed

lemma get_ip_leases:
  "fst (get_ip E url w) = Inr q \<Longrightarrow>
     proxy (snd (get_ip E url w)) = Assigned (Some q) \<and>
     proxy_fetch_time (snd (get_ip E url w)) = Assigned (now (snd (get_ip E url w)))"
  by (cases "fetch_loop E url max_retries w")
     (auto simp: get_ip_def Let_def split: option.splits prod.splits)

text \<open>
  So the loop of \<^verbatim>\<open>run\<close>, which starts in the world of a successful \<^verbatim>\<open>get_ip\<close>,
  starts with both lease attributes assigned.
\<close>

lemma get_ip_sets_lease:
  "get_ip E url w = (Inr q, w') \<Longrightarrow> lease_attributes_set w'"
  using get_ip_leases [of E url w q] by (simp add: lease_attributes_set_def)


lemma check_ip_validity_fetches:
  assumes "proxy w = Assigned None \<or>
     (proxy w = Assigned (Some p) \<and> proxy_fetch_time w = Assigned t0 \<and> now w - t0 > 300)"
  shows "snd (check_ip_validity E self w) = snd (get_ip E (ip_url self) w) \<and>
     fst (check_ip_validity E self w) =
       (case fst (get_ip E (ip_url self) w) of Inl e \<Rightarrow> Inl e | Inr q \<Rightarrow> Inr ())"
proof (cases "get_ip E (ip_url self) w")
  case (Pair r w1)
  show ?thesis
  proof (cases r)
    case (Inl e)
    with Pair assms show ?thesis
      by (auto simp: check_ip_validity_def Let_def)
  next
    case (Inr q)
    with Pair get_ip_leases [of E "ip_url self" w q]
    have "w1\<lparr>proxy := Assigned (Some q)\<rparr> = w1" by simp
    with Pair Inr assms show ?thesis
      by (auto simp: check_ip_validity_def Let_def)
  qed
qed

lemma check_ip_validity_cases:
  "check_ip_validity E self w = (Inl AttributeError, w) \<or>
   check_ip_validity E self w = (Inr (), w) \<or>
   (snd (check_ip_validity E self w) = snd (get_ip E (ip_url self) w) \<and>
    fst (check_ip_validity E self w) =
      (case fst (get_ip E (ip_url self) w) of Inl e \<Rightarrow> Inl e | Inr q \<Rightarrow> Inr ()))"
proof (cases "proxy w")
  case Unassigned
  then show ?thesis by (simp add: check_ip_validity_def Let_def)
next
  case (Assigned v)
  show ?thesis
  proof (cases v)
    case None
    with Assigned check_ip_validity_fetches [of w undefined 0 E self] show ?thesis by simp
  next
    case (Some p)
    show ?thesis
    proof (cases "proxy_fetch_time w")
      case Unassigned
      with Assigned Some show ?thesis by (simp add: check_ip_validity_def Let_def)
    next
      case t: (Assigned t0)
      show ?thesis
      proof (cases "now w - t0 > 300")
        case True
        with Assigned Some t check_ip_validity_fetches [of w p t0 E self] show ?thesis by simp
      next
        case False
        with Assigned Some t show ?thesis by (simp add: check_ip_validity_def Let_def)
      qed
    qed
  qed
qed




section \<open>Runs on concrete inputs\<close>

text \<open>
  Claim C1, at a failing input. The table lists 101 and 102, no ledger exists, the
  download of 101 succeeds and the download of 102 times out. The run ends normally
  with 102 in the error ledger and also in the progress ledger:
  \<^verbatim>\<open>generate_and_run_commands\<close> records the failure and returns, and \<^verbatim>\<open>run\<close> goes
  on to \<^verbatim>\<open>log_progress\<close>.
\<close>

theorem failed_download_is_logged_as_progress:
  "download env_download_times_out 102 = Timed_Out \<and>
   fst (run env_download_times_out example_downloader fresh_world) = Inr () \<and>
   error_log (snd (run env_download_times_out example_downloader fresh_world)) = [''102''] \<and>
   progress_log (snd (run env_download_times_out example_downloader fresh_world)) =
     Some [''101'', ''102'']"
  by code_simp

text \<open>
  A cover extraction that exits with a non-zero status is caught where it happens: the
  base name of the video goes to the error ledger and the item still reaches the
  progress ledger.
\<close>

lemma cover_exit_status_keeps_progress:
  "fst (run env_cover_fails example_downloader fresh_world) = Inr () \<and>
   error_log (snd (run env_cover_fails example_downloader fresh_world)) = [''video.mp4''] \<and>
   progress_log (snd (run env_cover_fails example_downloader fresh_world)) =
     Some [''101'', ''102'']"
  by code_simp

text \<open>
  Claim C5, at a failing input. The download of 101 succeeds and leaves one video; the
  cover extraction on it times out. \<^verbatim>\<open>extract_cover_image\<close> does not catch
  \<^verbatim>\<open>TimeoutExpired\<close>, so the handler of \<^verbatim>\<open>run\<close> records the item identifier (not
  the file's base name) in the error ledger and 101 never reaches the progress ledger.
\<close>

theorem cover_timeout_loses_progress:
  "download env_cover_times_out 101 = Exited 0 \<and>
   ffmpeg env_cover_times_out ''small_output/batch/101/merge/video.mp4'' = Timed_Out \<and>
   fst (run env_cover_times_out example_downloader fresh_world) = Inr () \<and>
   error_log (snd (run env_cover_times_out example_downloader fresh_world)) = [''101''] \<and>
   progress_log (snd (run env_cover_times_out example_downloader fresh_world)) = Some [''102'']"
  by code_simp

text \<open>
  Claim C7 as stated fails: with the progress ledger \<open>101, abc\<close> the run ends with
  \<^verbatim>\<open>SystemExit(1)\<close> before anything is requested or processed.
\<close>

theorem corrupt_ledger_stops_batch:
  "run env_all_well example_downloader corrupt_ledger_world =
     (Inl (SystemExit 1), corrupt_ledger_world) \<and>
   trace corrupt_ledger_world = [] \<and>
   exit_status (fst (run env_all_well example_downloader corrupt_ledger_world)) = 1"
  by code_simp

text \<open>
  Claim C7, amended. When the progress ledger holds a non-blank line that does not parse
  as an integer, \<^verbatim>\<open>load_progress\<close> raises \<^verbatim>\<open>ValueError\<close>, and \<^verbatim>\<open>run\<close> ends with
  exit status 1 leaving the world as it found it: no request, no item, no ledger entry.
\<close>

theorem corrupt_ledger_is_fatal:
  assumes "progress_log w = Some ls" and "l \<in> set ls"
    and "strip l \<noteq> []" and "py_int (strip l) = None"
  shows "load_progress (progress_log w) = Inl ValueError \<and>
         run E self w = (Inl (SystemExit 1), w) \<and> exit_status (fst (run E self w)) = 1"
proof -
  have "load_lines ls = Inl ValueError"
    using assms load_lines_bad [of ls] by blast
  then have a: "load_progress (progress_log w) = Inl ValueError"
    using assms(1) by (simp add: load_progress_def)
  then have b: "run E self w = (Inl (SystemExit 1), w)"
    by (cases "csv E") (simp_all add: run_def run_body_def Let_def)
  from a b show ?thesis by simp
qed

theorem corrupt_ledger_is_fatal_witness:
  "load_progress (progress_log corrupt_ledger_world) = Inl ValueError \<and>
   run env_service_down example_downloader corrupt_ledger_world =
     (Inl (SystemExit 1), corrupt_ledger_world)"
proof -
  have 1: "progress_log corrupt_ledger_world = Some [''101'', ''abc'']"
    by (simp add: corrupt_ledger_world_def)
  have 2: "''abc'' \<in> set [''101'', ''abc'']" by simp
  have 3: "strip ''abc'' \<noteq> []" by code_simp
  have 4: "py_int (strip ''abc'') = None" by code_simp
  from corrupt_ledger_is_fatal [OF 1 2 3 4, of env_service_down example_downloader]
  show ?thesis by simp
qed

section \<open>Properties of the batch loop\<close>

lemma grows_refl [simp]: "grows w w"
  by (simp add: grows_def)

lemma grows_trans: "grows a b \<Longrightarrow> grows b c \<Longrightarrow> grows a c"
  by (auto simp: grows_def)

lemma grows_perform [simp]: "grows w (perform E e w)"
  by (simp add: grows_def perform_def progress_lines_def)

lemma grows_sleep [simp]: "grows w (sleep d w)"
  by (simp add: grows_def sleep_def progress_lines_def)

lemma grows_log_error [simp]: "grows w (log_error l w)"
  by (simp add: grows_def log_error_def progress_lines_def)

lemma grows_log_progress [simp]: "grows w (log_progress a w)"
  by (simp add: grows_def log_progress_def progress_lines_def split: option.splits)

lemma grows_requests [simp]: "grows w (w'\<lparr>requests := n\<rparr>) = grows w w'"
  by (simp add: grows_def progress_lines_def)

lemma grows_proxy [simp]: "grows w (w'\<lparr>proxy := p\<rparr>) = grows w w'"
  by (simp add: grows_def progress_lines_def)

lemma grows_fetch_time [simp]: "grows w (w'\<lparr>proxy_fetch_time := t\<rparr>) = grows w w'"
  by (simp add: grows_def progress_lines_def)

lemma grows_fetch_loop: "grows w (snd (fetch_loop E url k w))"
proof (induction k arbitrary: w)
  case 0
  show ?case by simp
next
  case (Suc k)
  let ?w1 = "(perform E (Http_Get url) w)\<lparr>requests := Suc (requests w)\<rparr>"
  have a: "grows w ?w1" by simp
  have b: "grows w (sleep 5 ?w1)"
    by (rule grows_trans [OF a]) simp
  have c: "grows w (snd (fetch_loop E url k (sleep 5 ?w1)))"
    by (rule grows_trans [OF b Suc])
  show ?case
  proof (cases "usable (service E (requests w))")
    case None
    with c show ?thesis by (simp add: Let_def)
  next
    case (Some d)
    with a show ?thesis by (simp add: Let_def)
  qed
qed

lemma grows_get_ip: "grows w (snd (get_ip E url w))"
  using grows_fetch_loop [of w E url max_retries]
  by (cases "fetch_loop E url max_retries w")
     (auto simp: get_ip_def Let_def split: option.splits prod.splits)

lemma grows_check_ip_validity: "grows w (snd (check_ip_validity E self w))"
  using grows_get_ip [of w E "ip_url self"] check_ip_validity_cases [of E self w]
  by auto

lemma grows_makedirs: "grows w (snd (makedirs E p w))"
  by (simp add: makedirs_def)

lemma makedirs_trace: "trace (snd (makedirs E p w)) = trace w @ [Makedirs p]"
  by (simp add: makedirs_def)

lemma makedirs_raises: "fst (makedirs E p w) = Inl e \<Longrightarrow> e = OSError"
  by (auto simp: makedirs_def split: if_splits)

lemma create_directories_props:
  "grows w (snd (create_directories E self avid w)) \<and>
   Makedirs (merge_dir self avid) \<in> set (trace (snd (create_directories E self avid w))) \<and>
   (\<forall>e. fst (create_directories E self avid w) = Inl e \<longrightarrow> e = OSError) \<and>
   (\<forall>r. fst (create_directories E self avid w) = Inr r \<longrightarrow> fst r = merge_dir self avid)"
proof -
  let ?m = "merge_dir self avid"
  let ?a = "path_join3 (output_dir self) (str_int avid) ''audio_only''"
  let ?v = "path_join3 (output_dir self) (str_int avid) ''video_only''"
  let ?w1 = "snd (makedirs E ?m w)"
  let ?w2 = "snd (makedirs E ?a ?w1)"
  let ?w3 = "snd (makedirs E ?v ?w2)"
  have g1: "grows w ?w1" by (rule grows_makedirs)
  have g2: "grows w ?w2" using g1 grows_makedirs [of ?w1 E ?a] by (rule grows_trans)
  have g3: "grows w ?w3" using g2 grows_makedirs [of ?w2 E ?v] by (rule grows_trans)
  have t1: "Makedirs ?m \<in> set (trace ?w1)" by (simp add: makedirs_trace)
  have t2: "Makedirs ?m \<in> set (trace ?w2)" by (simp add: makedirs_trace)
  have t3: "Makedirs ?m \<in> set (trace ?w3)" by (simp add: makedirs_trace)
  show ?thesis
  proof (cases "makedirs E ?m w")
    case (Pair r1 x1)
    note p1 = this
    show ?thesis
    proof (cases r1)
      case (Inl e)
      with p1 g1 t1 makedirs_raises [of E ?m w e] show ?thesis
        by (simp add: create_directories_def merge_dir_def Let_def)
    next
      case (Inr u1)
      note r1 = this
      show ?thesis
      proof (cases "makedirs E ?a x1")
        case (Pair r2 x2)
        note p2 = this
        show ?thesis
        proof (cases r2)
          case (Inl e)
          with p1 r1 p2 g2 t2 makedirs_raises [of E ?a x1 e] show ?thesis
            by (simp add: create_directories_def merge_dir_def Let_def)
        next
          case (Inr u2)
          note r2 = this
          show ?thesis
          proof (cases "makedirs E ?v x2")
            case (Pair r3 x3)
            with p1 r1 p2 r2 g3 t3 makedirs_raises [of E ?v x2] show ?thesis
              by (cases r3) (simp_all add: create_directories_def merge_dir_def Let_def)
          qed
        qed
      qed
    qed
  qed
qed

lemma prefix_mem: "prefix xs ys \<Longrightarrow> x \<in> set xs \<Longrightarrow> x \<in> set ys"
  using set_mono_prefix by fastforce

lemma grows_trace_mem: "grows w w' \<Longrightarrow> e \<in> set (trace w) \<Longrightarrow> e \<in> set (trace w')"
  by (auto simp: grows_def intro: prefix_mem)

lemma grows_error_mem: "grows w w' \<Longrightarrow> l \<in> set (error_log w) \<Longrightarrow> l \<in> set (error_log w')"
  by (auto simp: grows_def intro: prefix_mem)

lemma generate_props:
  "grows w (generate_and_run_commands E avid p m w) \<and>
   (download E avid \<noteq> Exited 0 \<longrightarrow>
      str_int avid \<in> set (error_log (generate_and_run_commands E avid p m w)))"
proof -
  let ?w1 = "perform E (Shell (yutto_command avid p m)) w"
  have a: "grows w ?w1" by simp
  have b: "grows w (log_error (str_int avid) ?w1)"
    by (rule grows_trans [OF a]) simp
  have c: "str_int avid \<in> set (error_log (log_error (str_int avid) ?w1))"
    by (simp add: log_error_def)
  show ?thesis
    using a b c
    by (cases "download E avid") (simp_all add: generate_and_run_commands_def Let_def)
qed

lemma extract_props:
  "grows w (snd (extract_cover_image E v w)) \<and>
   (\<forall>e. fst (extract_cover_image E v w) = Inl e \<longrightarrow> is_Exception e)"
proof -
  let ?w1 = "perform E (Exec (ffmpeg_command v)) w"
  have a: "grows w ?w1" by simp
  have b: "grows w (log_error (basename v) ?w1)"
    by (rule grows_trans [OF a]) simp
  show ?thesis
    using a b
    by (cases "ffmpeg E v") (auto simp: extract_cover_image_def Let_def)
qed

lemma cover_files_props:
  "grows w (snd (cover_files E r fs w)) \<and>
   (\<forall>e. fst (cover_files E r fs w) = Inl e \<longrightarrow> is_Exception e)"
proof (induction fs arbitrary: w)
  case Nil
  show ?case by simp
next
  case (Cons f fs)
  show ?case
  proof (cases "endswith f ''.mp4''")
    case False
    with Cons [of w] show ?thesis by simp
  next
    case True
    obtain r1 w1 where x: "extract_cover_image E (path_join r f) w = (r1, w1)"
      by (cases "extract_cover_image E (path_join r f) w")
    from extract_props [of w E "path_join r f"] x
    have g: "grows w w1" and ex: "\<forall>e. r1 = Inl e \<longrightarrow> is_Exception e" by simp_all
    show ?thesis
    proof (cases r1)
      case (Inl e)
      with True x g ex show ?thesis by simp
    next
      case (Inr u)
      from Cons [of w1] g have "grows w (snd (cover_files E r fs w1))"
        by (blast intro: grows_trans)
      with Cons [of w1] True x Inr show ?thesis by simp
    qed
  qed
qed

lemma cover_walk_props:
  "grows w (snd (cover_walk E dirs w)) \<and>
   (\<forall>e. fst (cover_walk E dirs w) = Inl e \<longrightarrow> is_Exception e)"
proof (induction dirs arbitrary: w)
  case Nil
  show ?case by simp
next
  case (Cons d dirs)
  obtain r fs where d: "d = (r, fs)" by (cases d)
  obtain r1 w1 where x: "cover_files E r fs w = (r1, w1)"
    by (cases "cover_files E r fs w")
  from cover_files_props [of w E r fs] x
  have g: "grows w w1" and ex: "\<forall>e. r1 = Inl e \<longrightarrow> is_Exception e" by simp_all
  show ?case
  proof (cases r1)
    case (Inl e)
    with d x g ex show ?thesis by simp
  next
    case (Inr u)
    from Cons [of w1] g have "grows w (snd (cover_walk E dirs w1))"
      by (blast intro: grows_trans)
    with Cons [of w1] d x Inr show ?thesis by simp
  qed
qed

lemma process_item_props:
  "grows w (snd (process_item E self avid index w)) \<and>
   (\<forall>e. fst (process_item E self avid index w) = Inl e \<longrightarrow> is_Exception e) \<and>
   Makedirs (merge_dir self avid) \<in> set (trace (snd (process_item E self avid index w))) \<and>
   (download E avid \<noteq> Exited 0 \<and> fst (process_item E self avid index w) = Inr () \<longrightarrow>
      str_int avid \<in> set (error_log (snd (process_item E self avid index w))))"
proof -
  obtain r1 w1 where cd: "create_directories E self avid w = (r1, w1)"
    by (cases "create_directories E self avid w")
  from create_directories_props [of w E self avid] cd
  have g1: "grows w w1" and t1: "Makedirs (merge_dir self avid) \<in> set (trace w1)"
    and e1: "\<forall>e. r1 = Inl e \<longrightarrow> e = OSError"
    and m1: "\<forall>r. r1 = Inr r \<longrightarrow> fst r = merge_dir self avid"
    by simp_all
  show ?thesis
  proof (cases r1)
    case (Inl e)
    with cd g1 t1 e1 show ?thesis by (simp add: process_item_def)
  next
    case (Inr dirs)
    obtain m a v where dirs: "dirs = (m, a, v)" by (cases dirs)
    show ?thesis
    proof (cases "proxy w1")
      case Unassigned
      with cd Inr dirs g1 t1 show ?thesis by (simp add: process_item_def)
    next
      case (Assigned px)
    let ?w2 = "generate_and_run_commands E avid (proxy_text px) m w1"
    from generate_props [of w1 E avid "proxy_text px" m]
    have g2: "grows w1 ?w2"
      and d2: "download E avid \<noteq> Exited 0 \<longrightarrow> str_int avid \<in> set (error_log ?w2)"
      by simp_all
    obtain r3 w3 where cw: "cover_walk E (walk E m) ?w2 = (r3, w3)"
      by (cases "cover_walk E (walk E m) ?w2")
    from cover_walk_props [of ?w2 E "walk E m"] cw
    have g3: "grows ?w2 w3" and e3: "\<forall>e. r3 = Inl e \<longrightarrow> is_Exception e" by simp_all
    have g13: "grows w1 w3" using g2 g3 by (rule grows_trans)
    have g03: "grows w w3" using g1 g13 by (rule grows_trans)
    have t3: "Makedirs (merge_dir self avid) \<in> set (trace w3)"
      using g13 t1 by (rule grows_trace_mem)
    show ?thesis
    proof (cases r3)
      case (Inl e)
      with cd Inr dirs Assigned cw g03 t3 e3 show ?thesis by (simp add: process_item_def Let_def)
    next
      case r3: (Inr u)
      let ?w4 = "log_progress avid w3"
      have g34: "grows w3 ?w4" by simp
      have g04: "grows w ?w4" using g03 g34 by (rule grows_trans)
      have g45: "grows ?w4 (perform E Prompt ?w4)" by simp
      have g05: "grows w (perform E Prompt ?w4)" using g04 g45 by (rule grows_trans)
      have g24: "grows ?w2 ?w4" using g3 g34 by (rule grows_trans)
      have g25: "grows ?w2 (perform E Prompt ?w4)" using g24 g45 by (rule grows_trans)
      have t4: "Makedirs (merge_dir self avid) \<in> set (trace ?w4)"
        using g34 t3 by (rule grows_trace_mem)
      have t5: "Makedirs (merge_dir self avid) \<in> set (trace (perform E Prompt ?w4))"
        using g45 t4 by (rule grows_trace_mem)
      have d4: "download E avid \<noteq> Exited 0 \<longrightarrow> str_int avid \<in> set (error_log ?w4)"
        using d2 g24 by (blast intro: grows_error_mem)
      have d5: "download E avid \<noteq> Exited 0 \<longrightarrow>
          str_int avid \<in> set (error_log (perform E Prompt ?w4))"
        using d2 g25 by (blast intro: grows_error_mem)
      have eq: "process_item E self avid index w =
          (if index mod 1000 = 0 then
             (if stdin_eof E index then (Inl EOFError, perform E Prompt ?w4)
              else (Inr (), perform E Prompt ?w4))
           else (Inr (), ?w4))"
        using cd Inr dirs Assigned cw r3 by (simp add: process_item_def Let_def)
      show ?thesis
        unfolding eq using g04 g05 t4 t5 d4 d5 by simp
    qed
    qed
  qed
qed

lemma guarded_item_props:
  "fst (guarded_item E self avid index w) = Inr () \<and>
   grows w (snd (guarded_item E self avid index w)) \<and>
   Makedirs (merge_dir self avid) \<in> set (trace (snd (guarded_item E self avid index w))) \<and>
   (download E avid \<noteq> Exited 0 \<longrightarrow>
      str_int avid \<in> set (error_log (snd (guarded_item E self avid index w)))) \<and>
   (\<forall>e. fst (process_item E self avid index w) = Inl e \<longrightarrow>
      str_int avid \<in> set (error_log (snd (guarded_item E self avid index w))))"
proof -
  obtain r1 w1 where pi: "process_item E self avid index w = (r1, w1)"
    by (cases "process_item E self avid index w")
  from process_item_props [of w E self avid index] pi
  have g: "grows w w1" and ex: "\<forall>e. r1 = Inl e \<longrightarrow> is_Exception e"
    and t: "Makedirs (merge_dir self avid) \<in> set (trace w1)"
    and d: "download E avid \<noteq> Exited 0 \<and> r1 = Inr () \<longrightarrow> str_int avid \<in> set (error_log w1)"
    by simp_all
  show ?thesis
  proof (cases r1)
    case (Inl e)
    let ?w2 = "log_error (str_int avid) w1"
    have g12: "grows w1 ?w2" by simp
    have g02: "grows w ?w2" using g g12 by (rule grows_trans)
    have t2: "Makedirs (merge_dir self avid) \<in> set (trace ?w2)"
      using g12 t by (rule grows_trace_mem)
    have l2: "str_int avid \<in> set (error_log ?w2)" by (simp add: log_error_def)
    from Inl ex have "is_Exception e" by simp
    with pi Inl g02 t2 l2 show ?thesis by (simp add: guarded_item_def)
  next
    case (Inr u)
    with pi g t d show ?thesis by (simp add: guarded_item_def)
  qed
qed

lemma run_items_append:
  "run_items E self index (pre @ post) w =
     (case run_items E self index pre w of
        (Inl e, w1) \<Rightarrow> (Inl e, w1)
      | (Inr u, w1) \<Rightarrow> run_items E self (index + length pre) post w1)"
proof (induction pre arbitrary: index w)
  case Nil
  show ?case by simp
next
  case (Cons a pre)
  show ?case
    by (simp add: Cons split: prod.splits sum.splits)
qed

lemma grows_run_items: "grows w (snd (run_items E self index avids w))"
proof (induction avids arbitrary: index w)
  case Nil
  show ?case by simp
next
  case (Cons a avids)
  obtain r1 w1 where c: "check_ip_validity E self w = (r1, w1)"
    by (cases "check_ip_validity E self w")
  from grows_check_ip_validity [of w E self] c have g1: "grows w w1" by simp
  show ?case
  proof (cases r1)
    case (Inl e)
    with c g1 show ?thesis by simp
  next
    case (Inr u)
    obtain r2 w2 where gi: "guarded_item E self a index w1 = (r2, w2)"
      by (cases "guarded_item E self a index w1")
    from guarded_item_props [of E self a index w1] gi
    have r2: "r2 = Inr ()" and g2: "grows w1 w2" by simp_all
    have g02: "grows w w2" using g1 g2 by (rule grows_trans)
    have "grows w (snd (run_items E self (Suc index) avids w2))"
      using g02 Cons [of w2 "Suc index"] by (rule grows_trans)
    with c Inr gi r2 show ?thesis by simp
  qed
qed

lemma check_ip_validity_frame:
  "error_log (snd (check_ip_validity E self w)) = error_log w \<and>
   progress_log (snd (check_ip_validity E self w)) = progress_log w"
  using get_ip_world [of E "ip_url self" w] check_ip_validity_cases [of E self w]
  by auto

lemma check_ip_validity_raises:
  "fst (check_ip_validity E self w) = Inl e \<Longrightarrow>
     e = SystemExit 1 \<or> e = KeyError \<or> e = AttributeError"
  using get_ip_raises [of E "ip_url self" w e] check_ip_validity_cases [of E self w]
  by (auto split: sum.splits)

lemma fetch_loop_events:
  "\<exists>es. trace (snd (fetch_loop E url k w)) = trace w @ es \<and> set es \<subseteq> {Http_Get url, Sleep 5}"
proof (induction k arbitrary: w)
  case 0
  show ?case by simp
next
  case (Suc k)
  let ?w1 = "(perform E (Http_Get url) w)\<lparr>requests := Suc (requests w)\<rparr>"
  show ?case
  proof (cases "usable (service E (requests w))")
    case None
    from Suc [of "sleep 5 ?w1"] obtain es where
      es: "trace (snd (fetch_loop E url k (sleep 5 ?w1))) = trace (sleep 5 ?w1) @ es"
        "set es \<subseteq> {Http_Get url, Sleep 5}" by blast
    have "trace (snd (fetch_loop E url (Suc k) w)) = trace w @ (Http_Get url # Sleep 5 # es)"
      using None es(1) by (simp add: Let_def)
    moreover have "set (Http_Get url # Sleep 5 # es) \<subseteq> {Http_Get url, Sleep 5}"
      using es(2) by auto
    ultimately show ?thesis by blast
  next
    case (Some d)
    then have "trace (snd (fetch_loop E url (Suc k) w)) = trace w @ [Http_Get url]"
      by (simp add: Let_def)
    then show ?thesis by auto
  qed
qed

lemma check_ip_validity_events:
  "\<exists>es. trace (snd (check_ip_validity E self w)) = trace w @ es \<and>
        set es \<subseteq> {Http_Get (ip_url self), Sleep 5}"
proof -
  have "\<exists>es. trace (snd (get_ip E (ip_url self) w)) = trace w @ es \<and>
        set es \<subseteq> {Http_Get (ip_url self), Sleep 5}"
    using get_ip_world [of E "ip_url self" w] fetch_loop_events [of E "ip_url self" max_retries w]
    by simp
  with check_ip_validity_cases [of E self w] show ?thesis by auto
qed

text \<open>
  Claim C9. The lease check of an item runs outside the handler of that item. When the
  items before \<open>avid\<close> have been processed and the check before \<open>avid\<close> raises
  (\<^verbatim>\<open>SystemExit(1)\<close> after five failed attempts, or an exception of \<^verbatim>\<open>get_ip\<close>),
  \<^verbatim>\<open>run\<close> ends there with exit status 1: neither ledger receives a line for
  \<open>avid\<close> or for any later item, and the only actions after the last processed item
  are requests to the service and sleeps.
\<close>

theorem lease_failure_aborts_batch:
  assumes table: "csv E = Avid_Column column"
    and ledger: "load_progress (progress_log w0) = Inr completed"
    and work: "remaining_avids (unique column) completed = pre @ avid # post"
    and lease: "get_ip E (ip_url self) w0 = (Inr p, w)"
    and before: "run_items E self 1 pre w = (Inr (), w1)"
    and refresh: "check_ip_validity E self w1 = (Inl e, w2)"
  shows "run E self w0 = (Inl (SystemExit 1), w2) \<and>
         exit_status (fst (run E self w0)) = 1 \<and>
         error_log w2 = error_log w1 \<and> progress_log w2 = progress_log w1 \<and>
         (\<exists>es. trace w2 = trace w1 @ es \<and> set es \<subseteq> {Http_Get (ip_url self), Sleep 5})"
proof -
  have loop: "run_items E self 1 (pre @ avid # post) w = (Inl e, w2)"
    using before refresh by (simp add: run_items_append)
  have body: "run_body E self w0 = (Inl e, w2)"
    using table ledger work lease loop by (simp add: run_body_def Let_def)
  have e: "e = SystemExit 1 \<or> e = KeyError \<or> e = AttributeError"
    using check_ip_validity_raises [of E self w1 e] refresh by simp
  have r: "run E self w0 = (Inl (SystemExit 1), w2)"
    using body e by (auto simp: run_def)
  have f: "error_log w2 = error_log w1 \<and> progress_log w2 = progress_log w1"
    using check_ip_validity_frame [of E self w1] refresh by simp
  have t: "\<exists>es. trace w2 = trace w1 @ es \<and> set es \<subseteq> {Http_Get (ip_url self), Sleep 5}"
    using check_ip_validity_events [of E self w1] refresh by simp
  from r f t show ?thesis by simp
qed

theorem lease_failure_aborts_batch_witness:
  "run env_lease_lost example_downloader fresh_world = (Inl (SystemExit 1), lease_lost_aborted) \<and>
   error_log lease_lost_aborted = [] \<and>
   progress_log lease_lost_aborted = Some [''101'']"
proof -
  have 1: "csv env_lease_lost = Avid_Column [101, 102]" by code_simp
  have 2: "load_progress (progress_log fresh_world) = Inr {}" by code_simp
  have 3: "remaining_avids (unique [101, 102]) {} = [101] @ 102 # []" by code_simp
  have 4: "get_ip env_lease_lost (ip_url example_downloader) fresh_world =
      (Inr ''http://10.0.0.1:8080'', lease_lost_leased)"
    by code_simp
  have 5: "run_items env_lease_lost example_downloader 1 [101] lease_lost_leased =
      (Inr (), lease_lost_after_101)"
    by code_simp
  have 6: "check_ip_validity env_lease_lost example_downloader lease_lost_after_101 =
      (Inl (SystemExit 1), lease_lost_aborted)"
    by code_simp
  have 7: "error_log lease_lost_after_101 = []"
    by (simp add: lease_lost_after_101_def)
  have 8: "progress_log lease_lost_after_101 = Some [''101'']"
    by (simp add: lease_lost_after_101_def)
  from lease_failure_aborts_batch [OF 1 2 3 4 5 6] 7 8 show ?thesis by simp
qed

lemma service_ok_get_ip:
  assumes "\<forall>n. \<exists>ip port ds. service E n = Json (Some 200) ((Some ip, Some port) # ds)"
  shows "\<exists>p. fst (get_ip E url w) = Inr p"
proof -
  from assms obtain ip port ds where
    r: "service E (requests w) = Json (Some 200) ((Some ip, Some port) # ds)" by blast
  have m: "max_retries = Suc 4" by (simp add: max_retries_def)
  have "fst (fetch_loop E url (Suc k) w) = Some (Some ip, Some port)" for k
    using r by (simp add: Let_def)
  then have "fst (fetch_loop E url max_retries w) = Some (Some ip, Some port)"
    by (simp only: m)
  then show ?thesis
    by (cases "fetch_loop E url max_retries w") (simp add: get_ip_def Let_def)
qed

lemma log_lease [simp]:
  "proxy (log_error l w) = proxy w"
  "proxy_fetch_time (log_error l w) = proxy_fetch_time w"
  "proxy (log_progress a w) = proxy w"
  "proxy_fetch_time (log_progress a w) = proxy_fetch_time w"
  by (simp_all add: log_error_def log_progress_def)

lemma create_directories_lease:
  "proxy (snd (create_directories E self avid w)) = proxy w \<and>
   proxy_fetch_time (snd (create_directories E self avid w)) = proxy_fetch_time w"
  by (simp add: create_directories_def Let_def makedirs_def)

lemma generate_lease:
  "proxy (generate_and_run_commands E avid p m w) = proxy w \<and>
   proxy_fetch_time (generate_and_run_commands E avid p m w) = proxy_fetch_time w"
  by (cases "download E avid") (simp_all add: generate_and_run_commands_def Let_def)

lemma extract_lease:
  "proxy (snd (extract_cover_image E v w)) = proxy w \<and>
   proxy_fetch_time (snd (extract_cover_image E v w)) = proxy_fetch_time w"
  by (cases "ffmpeg E v") (simp_all add: extract_cover_image_def Let_def)

lemma cover_files_lease:
  "proxy (snd (cover_files E r fs w)) = proxy w \<and>
   proxy_fetch_time (snd (cover_files E r fs w)) = proxy_fetch_time w"
proof (induction fs arbitrary: w)
  case Nil
  show ?case by simp
next
  case (Cons f fs)
  show ?case
  proof (cases "endswith f ''.mp4''")
    case False
    with Cons [of w] show ?thesis by simp
  next
    case True
    obtain r1 w1 where x: "extract_cover_image E (path_join r f) w = (r1, w1)"
      by (cases "extract_cover_image E (path_join r f) w")
    with extract_lease [of E "path_join r f" w]
    have l: "proxy w1 = proxy w \<and> proxy_fetch_time w1 = proxy_fetch_time w" by simp
    with Cons [of w1] True x show ?thesis by (cases r1) simp_all
  qed
qed

lemma cover_walk_lease:
  "proxy (snd (cover_walk E dirs w)) = proxy w \<and>
   proxy_fetch_time (snd (cover_walk E dirs w)) = proxy_fetch_time w"
proof (induction dirs arbitrary: w)
  case Nil
  show ?case by simp
next
  case (Cons d dirs)
  obtain r fs where d: "d = (r, fs)" by (cases d)
  obtain r1 w1 where x: "cover_files E r fs w = (r1, w1)"
    by (cases "cover_files E r fs w")
  with cover_files_lease [of E r fs w]
  have l: "proxy w1 = proxy w \<and> proxy_fetch_time w1 = proxy_fetch_time w" by simp
  with Cons [of w1] d x show ?case by (cases r1) simp_all
qed

lemma process_item_lease:
  "proxy (snd (process_item E self avid index w)) = proxy w \<and>
   proxy_fetch_time (snd (process_item E self avid index w)) = proxy_fetch_time w"
proof -
  obtain r1 w1 where cd: "create_directories E self avid w = (r1, w1)"
    by (cases "create_directories E self avid w")
  with create_directories_lease [of E self avid w]
  have l1: "proxy w1 = proxy w \<and> proxy_fetch_time w1 = proxy_fetch_time w" by simp
  show ?thesis
  proof (cases r1)
    case (Inl e)
    with cd l1 show ?thesis by (simp add: process_item_def)
  next
    case (Inr dirs)
    obtain m a v where dirs: "dirs = (m, a, v)" by (cases dirs)
    show ?thesis
    proof (cases "proxy w1")
      case Unassigned
      with cd Inr dirs l1 show ?thesis by (simp add: process_item_def)
    next
      case (Assigned px)
      let ?w2 = "generate_and_run_commands E avid (proxy_text px) m w1"
      obtain r3 w3 where cw: "cover_walk E (walk E m) ?w2 = (r3, w3)"
        by (cases "cover_walk E (walk E m) ?w2")
      with cover_walk_lease [of E "walk E m" ?w2] generate_lease [of E avid "proxy_text px" m w1] l1
      have l3: "proxy w3 = proxy w \<and> proxy_fetch_time w3 = proxy_fetch_time w" by simp
      with cd Inr dirs Assigned cw show ?thesis
        by (cases r3) (simp_all add: process_item_def Let_def)
    qed
  qed
qed

lemma guarded_item_lease:
  "proxy (snd (guarded_item E self avid index w)) = proxy w \<and>
   proxy_fetch_time (snd (guarded_item E self avid index w)) = proxy_fetch_time w"
  using process_item_lease [of E self avid index w]
  by (cases "process_item E self avid index w")
     (auto simp: guarded_item_def split: sum.splits)

lemma service_ok_check:
  assumes svc: "\<forall>n. \<exists>ip port ds. service E n = Json (Some 200) ((Some ip, Some port) # ds)"
    and lease: "lease_attributes_set w"
  shows "fst (check_ip_validity E self w) = Inr () \<and>
         lease_attributes_set (snd (check_ip_validity E self w))"
proof -
  from service_ok_get_ip [OF svc, of "ip_url self" w] obtain q where
    q: "fst (get_ip E (ip_url self) w) = Inr q" by blast
  have fetched: "fst (check_ip_validity E self w) = Inr () \<and>
         lease_attributes_set (snd (check_ip_validity E self w))"
    if "proxy w = Assigned None \<or>
     (proxy w = Assigned (Some p) \<and> proxy_fetch_time w = Assigned t0 \<and> now w - t0 > 300)"
    for p t0
    using check_ip_validity_fetches [OF that, of E self] q get_ip_leases [OF q]
    by (simp add: lease_attributes_set_def)
  show ?thesis
  proof (cases "proxy w")
    case Unassigned
    with lease show ?thesis by (simp add: lease_attributes_set_def)
  next
    case (Assigned v)
    show ?thesis
    proof (cases v)
      case None
      with Assigned fetched show ?thesis by blast
    next
      case (Some p)
      show ?thesis
      proof (cases "proxy_fetch_time w")
        case Unassigned
        with Assigned Some lease show ?thesis by (simp add: lease_attributes_set_def)
      next
        case t: (Assigned t0)
        show ?thesis
        proof (cases "now w - t0 > 300")
          case True
          with Assigned Some t fetched [of p t0] show ?thesis by blast
        next
          case False
          with Assigned Some t lease show ?thesis
            by (simp add: check_ip_validity_def Let_def)
        qed
      qed
    qed
  qed
qed

lemma service_ok_run_items:
  assumes svc: "\<forall>n. \<exists>ip port ds. service E n = Json (Some 200) ((Some ip, Some port) # ds)"
    and lease: "lease_attributes_set w"
  shows "fst (run_items E self index avids w) = Inr () \<and>
     lease_attributes_set (snd (run_items E self index avids w)) \<and>
     (\<forall>a \<in> set avids. Makedirs (merge_dir self a) \<in> set (trace (snd (run_items E self index avids w))))"
  using lease
proof (induction avids arbitrary: index w)
  case Nil
  then show ?case by simp
next
  case (Cons a avids)
  obtain r1 w1 where c: "check_ip_validity E self w = (r1, w1)"
    by (cases "check_ip_validity E self w")
  from service_ok_check [OF svc Cons.prems, of self] c
  have r1: "r1 = Inr ()" and l1: "lease_attributes_set w1" by simp_all
  obtain r2 w2 where gi: "guarded_item E self a index w1 = (r2, w2)"
    by (cases "guarded_item E self a index w1")
  from guarded_item_props [of E self a index w1] gi
  have r2: "r2 = Inr ()" and t2: "Makedirs (merge_dir self a) \<in> set (trace w2)" by simp_all
  from guarded_item_lease [of E self a index w1] gi
  have "proxy w2 = proxy w1" "proxy_fetch_time w2 = proxy_fetch_time w1" by simp_all
  then have "lease_attributes_set w2 = lease_attributes_set w1"
    by (simp only: lease_attributes_set_def)
  with l1 have l2: "lease_attributes_set w2" by simp
  have eq: "run_items E self index (a # avids) w = run_items E self (Suc index) avids w2"
    using c r1 gi r2 by simp
  have "Makedirs (merge_dir self a) \<in> set (trace (snd (run_items E self (Suc index) avids w2)))"
    using grows_run_items [of w2 E self "Suc index" avids] t2 by (rule grows_trace_mem)
  with Cons.IH [OF l2, of "Suc index"] show ?case
    unfolding eq by simp
qed

text \<open>
  Claim C2. While the service keeps issuing proxies, no failure of an item ends the
  batch. From a world in which the lease attributes have been assigned (as \<^verbatim>\<open>run\<close>
  leaves them before its loop), for every item \<open>avid\<close> of the remaining list the loop
  returns normally, the
  item is reached, a failed download and any exception raised while processing it put
  \<open>avid\<close> into the error ledger, and every item after it is still processed (its
  directories are created).
\<close>

theorem item_failure_does_not_stop_batch:
  assumes svc: "\<forall>n. \<exists>ip port ds. service E n = Json (Some 200) ((Some ip, Some port) # ds)"
    and lease: "lease_attributes_set w"
    and split: "avids = pre @ avid # post"
  shows "fst (run_items E self index avids w) = Inr () \<and>
     fst (run_items E self index pre w) = Inr () \<and>
     fst (check_ip_validity E self (snd (run_items E self index pre w))) = Inr () \<and>
     (download E avid \<noteq> Exited 0 \<longrightarrow>
        str_int avid \<in> set (error_log (snd (run_items E self index avids w)))) \<and>
     (\<forall>e. fst (process_item E self avid (index + length pre)
               (snd (check_ip_validity E self (snd (run_items E self index pre w))))) = Inl e \<longrightarrow>
        str_int avid \<in> set (error_log (snd (run_items E self index avids w)))) \<and>
     (\<forall>a \<in> set post. Makedirs (merge_dir self a) \<in> set (trace (snd (run_items E self index avids w))))"
proof -
  let ?w1 = "snd (run_items E self index pre w)"
  let ?w2 = "snd (check_ip_validity E self ?w1)"
  let ?i = "index + length pre"
  let ?w3 = "snd (guarded_item E self avid ?i ?w2)"
  let ?wf = "snd (run_items E self index avids w)"
  have a: "fst (run_items E self index avids w) = Inr ()"
    using service_ok_run_items [OF svc lease] by blast
  have b: "fst (run_items E self index pre w) = Inr ()"
    using service_ok_run_items [OF svc lease] by blast
  have l1: "lease_attributes_set ?w1"
    using service_ok_run_items [OF svc lease] by blast
  have c: "fst (check_ip_validity E self ?w1) = Inr ()"
    using service_ok_check [OF svc l1] by blast
  have g: "fst (guarded_item E self avid ?i ?w2) = Inr ()"
    using guarded_item_props [of E self avid ?i ?w2] by blast
  have eq: "run_items E self index avids w = run_items E self (Suc ?i) post ?w3"
    using b c g unfolding split
    by (cases "run_items E self index pre w"; cases "check_ip_validity E self ?w1";
        cases "guarded_item E self avid ?i ?w2") (simp add: run_items_append)
  have gf: "grows ?w3 ?wf"
    unfolding eq by (rule grows_run_items)
  have d: "download E avid \<noteq> Exited 0 \<longrightarrow> str_int avid \<in> set (error_log ?wf)"
    using guarded_item_props [of E self avid ?i ?w2] gf by (blast intro: grows_error_mem)
  have e: "\<forall>e. fst (process_item E self avid ?i ?w2) = Inl e \<longrightarrow> str_int avid \<in> set (error_log ?wf)"
    using guarded_item_props [of E self avid ?i ?w2] gf by (blast intro: grows_error_mem)
  have f: "\<forall>a \<in> set post. Makedirs (merge_dir self a) \<in> set (trace ?wf)"
    using service_ok_run_items [OF svc lease, of self index avids] split by simp
  from a b c d e f show ?thesis by blast
qed

theorem item_failure_does_not_stop_batch_witness:
  "fst (run_items env_bad_items example_downloader 1 [101, 102, 103] first_lease_world) = Inr () \<and>
   download env_bad_items 101 = Exited 1 \<and>
   fst (process_item env_bad_items example_downloader 102 2 bad_items_after_101) = Inl OSError \<and>
   ''101'' \<in> set (error_log (snd (run_items env_bad_items example_downloader 1 [101, 102, 103]
                                    first_lease_world))) \<and>
   ''102'' \<in> set (error_log (snd (run_items env_bad_items example_downloader 1 [101, 102, 103]
                                    first_lease_world))) \<and>
   Makedirs ''small_output/batch/103/merge'' \<in>
     set (trace (snd (run_items env_bad_items example_downloader 1 [101, 102, 103]
                       first_lease_world)))"
proof -
  let ?E = env_bad_items
  let ?D = example_downloader
  let ?w = first_lease_world
  have svc: "\<forall>n. \<exists>ip port ds. service ?E n = Json (Some 200) ((Some ip, Some port) # ds)"
    by (simp add: env_bad_items_def env_all_well_def)
  have ls: "lease_attributes_set ?w"
    by (simp add: lease_attributes_set_def first_lease_world_def)
  have s1: "[101, 102, 103] = [] @ (101::int) # [102, 103]" by simp
  have s2: "[101, 102, 103] = [101] @ (102::int) # [103]" by simp
  have d1: "download ?E 101 = Exited 1" by code_simp
  have n1: "str_int 101 = ''101''" by code_simp
  have n2: "str_int 102 = ''102''" by code_simp
  have m3: "merge_dir ?D 103 = ''small_output/batch/103/merge''" by code_simp
  have r1: "run_items ?E ?D 1 [101] ?w = (Inr (), bad_items_after_101)" by code_simp
  have c1: "check_ip_validity ?E ?D bad_items_after_101 = (Inr (), bad_items_after_101)"
    by code_simp
  have q2: "fst (process_item ?E ?D 102 2 bad_items_after_101) = Inl OSError" by code_simp
  have i2: "1 + length [101::int] = 2" by simp
  have p2: "fst (process_item ?E ?D 102 (1 + length [101::int])
               (snd (check_ip_validity ?E ?D (snd (run_items ?E ?D 1 [101] ?w))))) = Inl OSError"
    by (simp only: r1 c1 snd_conv i2 q2)
  from item_failure_does_not_stop_batch [OF svc ls s1, of ?D 1] d1 n1
  have a: "fst (run_items ?E ?D 1 [101, 102, 103] ?w) = Inr ()"
    and b: "''101'' \<in> set (error_log (snd (run_items ?E ?D 1 [101, 102, 103] ?w)))"
    by simp_all
  from item_failure_does_not_stop_batch [OF svc ls s2, of ?D 1] p2
  have "str_int 102 \<in> set (error_log (snd (run_items ?E ?D 1 [101, 102, 103] ?w)))"
    and "\<forall>a \<in> set [103]. Makedirs (merge_dir ?D a) \<in>
              set (trace (snd (run_items ?E ?D 1 [101, 102, 103] ?w)))"
    by blast+
  with n2 m3
  have c: "''102'' \<in> set (error_log (snd (run_items ?E ?D 1 [101, 102, 103] ?w)))"
    and d: "Makedirs ''small_output/batch/103/merge'' \<in>
              set (trace (snd (run_items ?E ?D 1 [101, 102, 103] ?w)))"
    by simp_all
  from a b c d d1 q2 show ?thesis by blast
qed

section \<open>Properties of the cover extraction\<close>

lemma rfind_bounds: "- 1 \<le> rfind xs c \<and> rfind xs c < int (length xs)"
  by (induction xs) (auto simp: Let_def)

lemma rfind_notin: "c \<notin> set xs \<Longrightarrow> rfind xs c = - 1"
  by (induction xs) (auto simp: Let_def)

lemma rfind_append:
  "rfind (xs @ ys) c = (if 0 \<le> rfind ys c then int (length xs) + rfind ys c else rfind xs c)"
  using rfind_bounds [of ys c] by (induction xs) (auto simp: Let_def)

lemma splitext_extension:
  assumes dot: "CHR ''.'' \<notin> set e" and sep: "CHR ''/'' \<notin> set e"
    and name: "list_ex (\<lambda>c. c \<noteq> CHR ''.'') (drop (nat (rfind q CHR ''/'' + 1)) q)"
  shows "splitext (q @ CHR ''.'' # e) = (q, CHR ''.'' # e)"
proof -
  have d0: "rfind (CHR ''.'' # e) CHR ''.'' = 0"
    using rfind_notin [OF dot] by (simp add: Let_def)
  have s0: "rfind (CHR ''.'' # e) CHR ''/'' = - 1"
    using rfind_notin [OF sep] by (simp add: Let_def)
  have d: "rfind (q @ CHR ''.'' # e) CHR ''.'' = int (length q)"
    by (simp only: rfind_append d0) simp
  have s: "rfind (q @ CHR ''.'' # e) CHR ''/'' = rfind q CHR ''/''"
    by (simp only: rfind_append s0) simp
  have lt: "rfind q CHR ''/'' < int (length q)"
    using rfind_bounds [of q "CHR ''/''"] by simp
  show ?thesis
    using name lt by (simp add: splitext_def d s Let_def)
qed

lemma path_join_stem:
  assumes "CHR ''/'' \<notin> set stem" and "stem \<noteq> []"
  shows "path_join r (stem @ e) = path_join r stem @ e \<and>
         (\<exists>x. path_join r stem = x @ stem)"
proof -
  obtain c cs where stem: "stem = c # cs" using assms(2) by (cases stem) auto
  with assms(1) have c: "c \<noteq> CHR ''/''" by auto
  have "\<not> startswith (stem @ e) ''/''" "\<not> startswith stem ''/''"
    using c by (simp_all add: startswith_def stem)
  then show ?thesis
    by (auto simp: path_join_def)
qed

lemma cover_path_mp4:
  assumes sep: "CHR ''/'' \<notin> set stem" and name: "\<exists>c \<in> set stem. c \<noteq> CHR ''.''"
  shows "cover_path (path_join r (stem @ ''.mp4'')) = path_join r stem @ ''.jpg''"
proof -
  from name have ne: "stem \<noteq> []" by auto
  from path_join_stem [OF sep ne, of r "''.mp4''"] obtain x where
    j: "path_join r (stem @ ''.mp4'') = path_join r stem @ ''.mp4''"
    and x: "path_join r stem = x @ stem" by blast
  have sx: "rfind (x @ stem) CHR ''/'' = rfind x CHR ''/''"
    using rfind_notin [OF sep] by (simp add: rfind_append)
  have "rfind x CHR ''/'' < int (length x)" "- 1 \<le> rfind x CHR ''/''"
    using rfind_bounds [of x "CHR ''/''"] by simp_all
  then have "drop (nat (rfind x CHR ''/'' + 1)) (x @ stem) =
      drop (nat (rfind x CHR ''/'' + 1)) x @ stem"
    by simp
  then have "list_ex (\<lambda>c. c \<noteq> CHR ''.'')
      (drop (nat (rfind (path_join r stem) CHR ''/'' + 1)) (path_join r stem))"
    using name by (auto simp: x sx list_ex_iff)
  then have "splitext (path_join r stem @ CHR ''.'' # ''mp4'') = (path_join r stem, CHR ''.'' # ''mp4'')"
    by (intro splitext_extension) simp_all
  then show ?thesis
    by (simp add: cover_path_def j)
qed

lemma extract_trace:
  "trace (snd (extract_cover_image E v w)) = trace w @ [Exec (ffmpeg_command v)] \<and>
   (\<forall>rc. ffmpeg E v = Exited rc \<longrightarrow> fst (extract_cover_image E v w) = Inr ())"
  by (cases "ffmpeg E v") (auto simp: extract_cover_image_def Let_def log_error_def)

lemma cover_files_trace:
  assumes "\<forall>f \<in> set fs. endswith f ''.mp4'' \<longrightarrow> (\<exists>rc. ffmpeg E (path_join r f) = Exited rc)"
  shows "fst (cover_files E r fs w) = Inr () \<and>
     trace (snd (cover_files E r fs w)) =
       trace w @ map (\<lambda>p. Exec (ffmpeg_command p))
                     (map (path_join r) (filter (\<lambda>f. endswith f ''.mp4'') fs))"
  using assms
proof (induction fs arbitrary: w)
  case Nil
  show ?case by simp
next
  case (Cons f fs)
  then have rest: "\<forall>f \<in> set fs. endswith f ''.mp4'' \<longrightarrow> (\<exists>rc. ffmpeg E (path_join r f) = Exited rc)"
    by simp
  show ?case
  proof (cases "endswith f ''.mp4''")
    case False
    with Cons.IH [OF rest, of w] show ?thesis by simp
  next
    case True
    with Cons.prems obtain rc where rc: "ffmpeg E (path_join r f) = Exited rc" by auto
    obtain r1 w1 where x: "extract_cover_image E (path_join r f) w = (r1, w1)"
      by (cases "extract_cover_image E (path_join r f) w")
    from extract_trace [of E "path_join r f" w] x rc
    have r1: "r1 = Inr ()" and t1: "trace w1 = trace w @ [Exec (ffmpeg_command (path_join r f))]"
      by simp_all
    from Cons.IH [OF rest, of w1] True x r1 t1 show ?thesis by simp
  qed
qed

lemma cover_walk_trace:
  assumes "\<forall>p \<in> set (mp4_paths dirs). \<exists>rc. ffmpeg E p = Exited rc"
  shows "fst (cover_walk E dirs w) = Inr () \<and>
     trace (snd (cover_walk E dirs w)) =
       trace w @ map (\<lambda>p. Exec (ffmpeg_command p)) (mp4_paths dirs)"
  using assms
proof (induction dirs arbitrary: w)
  case Nil
  show ?case by (simp add: mp4_paths_def)
next
  case (Cons d dirs)
  obtain r fs where d: "d = (r, fs)" by (cases d)
  have split: "mp4_paths ((r, fs) # dirs) =
      map (path_join r) (filter (\<lambda>f. endswith f ''.mp4'') fs) @ mp4_paths dirs"
    by (simp add: mp4_paths_def)
  from Cons.prems d have here: "\<forall>f \<in> set fs. endswith f ''.mp4'' \<longrightarrow> (\<exists>rc. ffmpeg E (path_join r f) = Exited rc)"
    and rest: "\<forall>p \<in> set (mp4_paths dirs). \<exists>rc. ffmpeg E p = Exited rc"
    by (auto simp: split)
  obtain r1 w1 where x: "cover_files E r fs w = (r1, w1)"
    by (cases "cover_files E r fs w")
  from cover_files_trace [OF here, of w] x
  have r1: "r1 = Inr ()"
    and t1: "trace w1 = trace w @ map (\<lambda>p. Exec (ffmpeg_command p))
                     (map (path_join r) (filter (\<lambda>f. endswith f ''.mp4'') fs))"
    by simp_all
  from Cons.IH [OF rest, of w1] d x r1 t1 show ?case
    by (simp add: split)
qed

lemma mp4_paths_set:
  "set (mp4_paths dirs) =
     {path_join r f | r fs f. (r, fs) \<in> set dirs \<and> f \<in> set fs \<and> endswith f ''.mp4''}"
  by (auto simp: mp4_paths_def)

lemma cover_files_execs:
  "\<exists>es. trace (snd (cover_files E r fs w)) = trace w @ es \<and>
        prefix es (map (\<lambda>p. Exec (ffmpeg_command p))
                     (map (path_join r) (filter (\<lambda>f. endswith f ''.mp4'') fs))) \<and>
        (fst (cover_files E r fs w) = Inr () \<longrightarrow>
           es = map (\<lambda>p. Exec (ffmpeg_command p))
                  (map (path_join r) (filter (\<lambda>f. endswith f ''.mp4'') fs)))"
proof (induction fs arbitrary: w)
  case Nil
  show ?case by simp
next
  case (Cons f fs)
  let ?full = "map (\<lambda>p. Exec (ffmpeg_command p))
                  (map (path_join r) (filter (\<lambda>f. endswith f ''.mp4'') fs))"
  show ?case
  proof (cases "endswith f ''.mp4''")
    case False
    with Cons [of w] show ?thesis by simp
  next
    case True
    let ?c = "Exec (ffmpeg_command (path_join r f))"
    obtain r1 w1 where x: "extract_cover_image E (path_join r f) w = (r1, w1)"
      by (cases "extract_cover_image E (path_join r f) w")
    from extract_trace [of E "path_join r f" w] x
    have t1: "trace w1 = trace w @ [?c]" by simp
    show ?thesis
    proof (cases r1)
      case (Inl e)
      have "trace (snd (cover_files E r (f # fs) w)) = trace w @ [?c]"
        using True x Inl t1 by simp
      moreover have "prefix [?c] (?c # ?full)" by simp
      moreover have "fst (cover_files E r (f # fs) w) \<noteq> Inr ()"
        using True x Inl by simp
      ultimately show ?thesis using True by auto
    next
      case (Inr u)
      from Cons [of w1] obtain es where
        es: "trace (snd (cover_files E r fs w1)) = trace w1 @ es" "prefix es ?full"
          "fst (cover_files E r fs w1) = Inr () \<longrightarrow> es = ?full"
        by blast
      have eq: "cover_files E r (f # fs) w = cover_files E r fs w1"
        using True x Inr by simp
      have "trace (snd (cover_files E r (f # fs) w)) = trace w @ (?c # es)"
        using es(1) t1 unfolding eq by simp
      moreover have "prefix (?c # es) (?c # ?full)" using es(2) by simp
      moreover have "fst (cover_files E r (f # fs) w) = Inr () \<longrightarrow> ?c # es = ?c # ?full"
        using es(3) unfolding eq by simp
      ultimately show ?thesis using True by auto
    qed
  qed
qed

lemma cover_walk_execs:
  "\<exists>es. trace (snd (cover_walk E dirs w)) = trace w @ es \<and>
        prefix es (map (\<lambda>p. Exec (ffmpeg_command p)) (mp4_paths dirs)) \<and>
        (fst (cover_walk E dirs w) = Inr () \<longrightarrow>
           es = map (\<lambda>p. Exec (ffmpeg_command p)) (mp4_paths dirs))"
proof (induction dirs arbitrary: w)
  case Nil
  show ?case by (simp add: mp4_paths_def)
next
  case (Cons d dirs)
  obtain r fs where d: "d = (r, fs)" by (cases d)
  let ?here = "map (\<lambda>p. Exec (ffmpeg_command p))
                  (map (path_join r) (filter (\<lambda>f. endswith f ''.mp4'') fs))"
  let ?rest = "map (\<lambda>p. Exec (ffmpeg_command p)) (mp4_paths dirs)"
  have split: "map (\<lambda>p. Exec (ffmpeg_command p)) (mp4_paths ((r, fs) # dirs)) = ?here @ ?rest"
    by (simp add: mp4_paths_def)
  obtain r1 w1 where x: "cover_files E r fs w = (r1, w1)"
    by (cases "cover_files E r fs w")
  from cover_files_execs [of E r fs w] x obtain es1 where
    es1: "trace w1 = trace w @ es1" "prefix es1 ?here" "r1 = Inr () \<longrightarrow> es1 = ?here"
    by auto
  show ?case
  proof (cases r1)
    case (Inl e)
    have "trace (snd (cover_walk E (d # dirs) w)) = trace w @ es1"
      using d x Inl es1(1) by simp
    moreover have "prefix es1 (?here @ ?rest)" using es1(2) by (rule prefix_prefix)
    moreover have "fst (cover_walk E (d # dirs) w) \<noteq> Inr ()" using d x Inl by simp
    ultimately show ?thesis unfolding d split by blast
  next
    case (Inr u)
    then have h: "es1 = ?here" using es1(3) by simp
    from Cons [of w1] obtain es2 where
      es2: "trace (snd (cover_walk E dirs w1)) = trace w1 @ es2" "prefix es2 ?rest"
        "fst (cover_walk E dirs w1) = Inr () \<longrightarrow> es2 = ?rest"
      by blast
    have eq: "cover_walk E (d # dirs) w = cover_walk E dirs w1"
      using d x Inr by simp
    have "trace (snd (cover_walk E (d # dirs) w)) = trace w @ (?here @ es2)"
      using es2(1) es1(1) h unfolding eq by simp
    moreover have "prefix (?here @ es2) (?here @ ?rest)" using es2(2) by simp
    moreover have "fst (cover_walk E (d # dirs) w) = Inr () \<longrightarrow> ?here @ es2 = ?here @ ?rest"
      using es2(3) unfolding eq by simp
    ultimately show ?thesis unfolding d split by blast
  qed
qed

lemma filter_is_exec_map [simp]:
  "filter is_exec (map (\<lambda>p. Exec (ffmpeg_command p)) ps) = map (\<lambda>p. Exec (ffmpeg_command p)) ps"
  by (induction ps) simp_all

lemma filter_is_exec_prefix:
  assumes "prefix es (map (\<lambda>p. Exec (ffmpeg_command p)) ps)"
  shows "filter is_exec es = es"
proof -
  from assms obtain zs where z: "map (\<lambda>p. Exec (ffmpeg_command p)) ps = es @ zs"
    by (auto simp: prefix_def)
  have "set es \<subseteq> set (es @ zs)" by simp
  then have "set es \<subseteq> set (map (\<lambda>p. Exec (ffmpeg_command p)) ps)"
    by (simp only: z)
  then have "\<forall>e \<in> set es. is_exec e" by auto
  then show ?thesis by (rule filter_True)
qed

lemma create_directories_trace:
  "\<exists>es. trace (snd (create_directories E self avid w)) = trace w @ es \<and>
        filter is_exec es = [] \<and>
        (\<forall>r. fst (create_directories E self avid w) = Inr r \<longrightarrow>
           fst r = merge_dir self avid \<and>
           es = [Makedirs (merge_dir self avid),
                 Makedirs (path_join3 (output_dir self) (str_int avid) ''audio_only''),
                 Makedirs (path_join3 (output_dir self) (str_int avid) ''video_only'')])"
  by (simp add: create_directories_def Let_def makedirs_def perform_def merge_dir_def)

lemma create_directories_succeeds:
  assumes "\<not> makedirs_fails E (merge_dir self avid)"
    and "\<not> makedirs_fails E (path_join3 (output_dir self) (str_int avid) ''audio_only'')"
    and "\<not> makedirs_fails E (path_join3 (output_dir self) (str_int avid) ''video_only'')"
  shows "\<exists>r. fst (create_directories E self avid w) = Inr r"
  using assms by (simp add: create_directories_def Let_def makedirs_def merge_dir_def)

lemma process_item_execs:
  "\<exists>es. trace (snd (process_item E self avid index w)) = trace w @ es \<and>
        prefix (filter is_exec es)
          (map (\<lambda>p. Exec (ffmpeg_command p)) (mp4_paths (walk E (merge_dir self avid)))) \<and>
        (\<forall>v. (\<exists>r. fst (create_directories E self avid w) = Inr r) \<and> proxy w = Assigned v \<and>
              (\<forall>p \<in> set (mp4_paths (walk E (merge_dir self avid))). \<exists>rc. ffmpeg E p = Exited rc) \<longrightarrow>
           es = [Makedirs (merge_dir self avid),
                 Makedirs (path_join3 (output_dir self) (str_int avid) ''audio_only''),
                 Makedirs (path_join3 (output_dir self) (str_int avid) ''video_only''),
                 Shell (yutto_command avid (proxy_text v) (merge_dir self avid))] @
                map (\<lambda>p. Exec (ffmpeg_command p)) (mp4_paths (walk E (merge_dir self avid))) @
                (if index mod 1000 = 0 then [Prompt] else []))"
proof -
  let ?m = "merge_dir self avid"
  let ?full = "map (\<lambda>p. Exec (ffmpeg_command p)) (mp4_paths (walk E ?m))"
  let ?dirs3 = "[Makedirs ?m,
                 Makedirs (path_join3 (output_dir self) (str_int avid) ''audio_only''),
                 Makedirs (path_join3 (output_dir self) (str_int avid) ''video_only'')]"
  obtain r1 w1 where cd: "create_directories E self avid w = (r1, w1)"
    by (cases "create_directories E self avid w")
  from create_directories_trace [of E self avid w] cd obtain es1 where
    es1: "trace w1 = trace w @ es1" "filter is_exec es1 = []"
      "\<forall>r. r1 = Inr r \<longrightarrow> fst r = ?m \<and> es1 = ?dirs3"
    by auto
  from create_directories_lease [of E self avid w] cd
  have px1: "proxy w1 = proxy w" by simp
  show ?thesis
  proof (cases r1)
    case (Inl e)
    have "trace (snd (process_item E self avid index w)) = trace w @ es1"
      using cd Inl es1(1) by (simp add: process_item_def)
    moreover have "prefix (filter is_exec es1) ?full" using es1(2) by simp
    moreover have "\<not> (\<exists>r. fst (create_directories E self avid w) = Inr r)"
      using cd Inl by simp
    ultimately show ?thesis by blast
  next
    case (Inr dirs)
    obtain m a v where dirs: "dirs = (m, a, v)" by (cases dirs)
    from es1(3) Inr dirs have m: "m = ?m" and e1: "es1 = ?dirs3" by simp_all
    show ?thesis
    proof (cases "proxy w1")
      case Unassigned
      have "trace (snd (process_item E self avid index w)) = trace w @ es1"
        using cd Inr dirs Unassigned es1(1) by (simp add: process_item_def)
      moreover have "prefix (filter is_exec es1) ?full" using es1(2) by simp
      moreover have "\<forall>v. proxy w \<noteq> Assigned v" using Unassigned px1 by simp
      ultimately show ?thesis by blast
    next
      case (Assigned px)
      let ?sh = "Shell (yutto_command avid (proxy_text px) ?m)"
      let ?w2 = "generate_and_run_commands E avid (proxy_text px) ?m w1"
      have t2: "trace ?w2 = trace w1 @ [?sh]"
        by (cases "download E avid")
           (simp_all add: generate_and_run_commands_def Let_def log_error_def)
      obtain r3 w3 where cw: "cover_walk E (walk E ?m) ?w2 = (r3, w3)"
        by (cases "cover_walk E (walk E ?m) ?w2")
      from cover_walk_execs [of E "walk E ?m" ?w2] cw obtain es3 where
        es3: "trace w3 = trace ?w2 @ es3" "prefix es3 ?full" "r3 = Inr () \<longrightarrow> es3 = ?full"
        by auto
      have f3: "filter is_exec es3 = es3" using es3(2) by (rule filter_is_exec_prefix)
      have t3: "trace w3 = trace w @ (es1 @ [?sh] @ es3)"
        using es1(1) t2 es3(1) by simp
      have pv: "proxy w = Assigned v' \<Longrightarrow> v' = px" for v'
        using Assigned px1 by simp
      show ?thesis
      proof (cases r3)
        case (Inl e)
        have "trace (snd (process_item E self avid index w)) = trace w @ (es1 @ [?sh] @ es3)"
          using cd Inr dirs m Assigned cw Inl t3 by (simp add: process_item_def Let_def)
        moreover have "prefix (filter is_exec (es1 @ [?sh] @ es3)) ?full"
          using es1(2) f3 es3(2) by simp
        moreover have "\<not> (\<forall>p \<in> set (mp4_paths (walk E ?m)). \<exists>rc. ffmpeg E p = Exited rc)"
          using cover_walk_trace [of "walk E ?m" E ?w2] cw Inl by auto
        ultimately show ?thesis by blast
      next
        case r3: (Inr u)
        then have full: "es3 = ?full" using es3(3) by simp
        let ?tail = "if index mod 1000 = 0 then [Prompt] else []"
        have "trace (snd (process_item E self avid index w)) =
            trace w @ (es1 @ [?sh] @ es3 @ ?tail)"
          using cd Inr dirs m Assigned cw r3 t3
          by (simp add: process_item_def Let_def log_progress_def)
        moreover have "prefix (filter is_exec (es1 @ [?sh] @ es3 @ ?tail)) ?full"
          using es1(2) f3 full by simp
        moreover have "\<forall>v. proxy w = Assigned v \<longrightarrow>
            es1 @ [?sh] @ es3 @ ?tail =
              [Makedirs ?m,
               Makedirs (path_join3 (output_dir self) (str_int avid) ''audio_only''),
               Makedirs (path_join3 (output_dir self) (str_int avid) ''video_only''),
               Shell (yutto_command avid (proxy_text v) ?m)] @ ?full @ ?tail"
          using e1 full pv by auto
        ultimately show ?thesis by blast
      qed
    qed
  qed
qed

lemma guarded_item_trace:
  "trace (snd (guarded_item E self avid index w)) = trace (snd (process_item E self avid index w))"
  by (cases "process_item E self avid index w")
     (auto simp: guarded_item_def log_error_def split: sum.splits)

lemma run_items_execs:
  "\<exists>es. trace (snd (run_items E self index avids w)) = trace w @ es \<and>
        (\<forall>argv. Exec argv \<in> set es \<longrightarrow>
           (\<exists>a \<in> set avids. \<exists>p \<in> set (mp4_paths (walk E (merge_dir self a))).
              argv = ffmpeg_command p))"
proof (induction avids arbitrary: index w)
  case Nil
  show ?case by simp
next
  case (Cons a avids)
  obtain r1 w1 where c: "check_ip_validity E self w = (r1, w1)"
    by (cases "check_ip_validity E self w")
  from check_ip_validity_events [of E self w] c obtain es1 where
    es1: "trace w1 = trace w @ es1" "set es1 \<subseteq> {Http_Get (ip_url self), Sleep 5}"
    by auto
  have n1: "Exec argv \<notin> set es1" for argv using es1(2) by auto
  show ?case
  proof (cases r1)
    case (Inl e)
    have "trace (snd (run_items E self index (a # avids) w)) = trace w @ es1"
      using c Inl es1(1) by simp
    with n1 show ?thesis by blast
  next
    case (Inr u)
    obtain r2 w2 where gi: "guarded_item E self a index w1 = (r2, w2)"
      by (cases "guarded_item E self a index w1")
    from process_item_execs [of E self a index w1] guarded_item_trace [of E self a index w1] gi
    obtain es2 where es2: "trace w2 = trace w1 @ es2"
      "prefix (filter is_exec es2)
         (map (\<lambda>p. Exec (ffmpeg_command p)) (mp4_paths (walk E (merge_dir self a))))"
      by auto
    have n2: "\<exists>p \<in> set (mp4_paths (walk E (merge_dir self a))). argv = ffmpeg_command p"
      if "Exec argv \<in> set es2" for argv
    proof -
      from that have "Exec argv \<in> set (filter is_exec es2)" by simp
      with es2(2) have "Exec argv \<in>
          set (map (\<lambda>p. Exec (ffmpeg_command p)) (mp4_paths (walk E (merge_dir self a))))"
        using set_mono_prefix by blast
      then show ?thesis by auto
    qed
    from guarded_item_props [of E self a index w1] gi have r2: "r2 = Inr ()" by simp
    from Cons [of "Suc index" w2] obtain es3 where
      es3: "trace (snd (run_items E self (Suc index) avids w2)) = trace w2 @ es3"
        "\<forall>argv. Exec argv \<in> set es3 \<longrightarrow>
           (\<exists>a \<in> set avids. \<exists>p \<in> set (mp4_paths (walk E (merge_dir self a))).
              argv = ffmpeg_command p)"
      by blast
    have "trace (snd (run_items E self index (a # avids) w)) = trace w @ (es1 @ es2 @ es3)"
      using c Inr gi r2 es1(1) es2(1) es3(1) by simp
    moreover have "\<forall>argv. Exec argv \<in> set (es1 @ es2 @ es3) \<longrightarrow>
           (\<exists>b \<in> set (a # avids). \<exists>p \<in> set (mp4_paths (walk E (merge_dir self b))).
              argv = ffmpeg_command p)"
      using n1 n2 es3(2) by auto
    ultimately show ?thesis by blast
  qed
qed
lemma get_ip_events:
  "\<exists>es. trace (snd (get_ip E url w)) = trace w @ es \<and> set es \<subseteq> {Http_Get url, Sleep 5}"
  using get_ip_world [of E url w] fetch_loop_events [of E url max_retries w] by simp

lemma run_execs:
  "\<exists>es. trace (snd (run E self w)) = trace w @ es \<and>
        (\<forall>argv. Exec argv \<in> set es \<longrightarrow>
           (\<exists>column completed.
              csv E = Avid_Column column \<and> load_progress (progress_log w) = Inr completed \<and>
              (\<exists>a \<in> set (remaining_avids (unique column) completed).
                 \<exists>p \<in> set (mp4_paths (walk E (merge_dir self a))). argv = ffmpeg_command p)))"
proof -
  have rt: "trace (snd (run E self w)) = trace (snd (run_body E self w))"
    by (cases "run_body E self w") (auto simp: run_def split: sum.splits)
  have none: ?thesis if "trace (snd (run_body E self w)) = trace w"
    using that rt by simp
  show ?thesis
  proof (cases "csv E")
    case Missing_File
    then show ?thesis by (intro none) (simp add: run_body_def)
  next
    case Unreadable
    then show ?thesis by (intro none) (simp add: run_body_def)
  next
    case (Avid_Column column)
    show ?thesis
    proof (cases "load_progress (progress_log w)")
      case (Inl e)
      with Avid_Column show ?thesis by (intro none) (simp add: run_body_def Let_def)
    next
      case (Inr completed)
      obtain r1 w1 where g: "get_ip E (ip_url self) w = (r1, w1)"
        by (cases "get_ip E (ip_url self) w")
      from get_ip_events [of E "ip_url self" w] g obtain es1 where
        es1: "trace w1 = trace w @ es1" "set es1 \<subseteq> {Http_Get (ip_url self), Sleep 5}"
        by auto
      have n1: "Exec argv \<notin> set es1" for argv using es1(2) by auto
      show ?thesis
      proof (cases r1)
        case (Inl e)
        have "trace (snd (run E self w)) = trace w @ es1"
          using Avid_Column Inr g Inl es1(1) rt by (simp add: run_body_def Let_def)
        with n1 show ?thesis by blast
      next
        case p: (Inr p)
        let ?rem = "remaining_avids (unique column) completed"
        from run_items_execs [of E self 1 ?rem w1] obtain es2 where
          es2: "trace (snd (run_items E self 1 ?rem w1)) = trace w1 @ es2"
            "\<forall>argv. Exec argv \<in> set es2 \<longrightarrow>
               (\<exists>a \<in> set ?rem. \<exists>p \<in> set (mp4_paths (walk E (merge_dir self a))).
                  argv = ffmpeg_command p)"
          by blast
        have "trace (snd (run E self w)) = trace w @ (es1 @ es2)"
          using Avid_Column Inr g p es1(1) es2(1) rt by (simp add: run_body_def Let_def)
        moreover have "\<forall>argv. Exec argv \<in> set (es1 @ es2) \<longrightarrow>
           (\<exists>column completed.
              csv E = Avid_Column column \<and> load_progress (progress_log w) = Inr completed \<and>
              (\<exists>a \<in> set (remaining_avids (unique column) completed).
                 \<exists>p \<in> set (mp4_paths (walk E (merge_dir self a))). argv = ffmpeg_command p))"
          using n1 es2(2) Avid_Column Inr by auto
        ultimately show ?thesis by blast
      qed
    qed
  qed
qed

text \<open>
  Claim C10, amended. While \<^verbatim>\<open>run\<close> processes an item, the extraction tool is run
  only on files that the walk of that item's merge directory lists and whose names end
  with \<^verbatim>\<open>.mp4\<close>, in the order of the walk, each at most once, and on no other file:
  the runs of the tool are an initial part of that list, for one item and so for the
  whole run. When the directories of the item can be created and each extraction returns
  (with status zero or not), the tool is run on all of them: the actions of the item are
  the three \<^verbatim>\<open>makedirs\<close>, the download, one extraction per such file, and the prompt
  at every 1000th item. The last argument of the tool is the first component of
  \<^verbatim>\<open>os.path.splitext\<close> of the video path followed by \<^verbatim>\<open>.jpg\<close>, which, for a file
  name without separator whose part before \<^verbatim>\<open>.mp4\<close> has a character other than a
  dot, is the video path with \<^verbatim>\<open>.mp4\<close> replaced by \<^verbatim>\<open>.jpg\<close>.
\<close>

theorem cover_extraction_on_mp4_files:
  "(\<exists>es. trace (snd (guarded_item E self avid index w)) = trace w @ es \<and>
         prefix (filter is_exec es)
           (map (\<lambda>p. Exec (ffmpeg_command p)) (mp4_paths (walk E (merge_dir self avid))))) \<and>
   (\<not> makedirs_fails E (merge_dir self avid) \<and>
    \<not> makedirs_fails E (path_join3 (output_dir self) (str_int avid) ''audio_only'') \<and>
    \<not> makedirs_fails E (path_join3 (output_dir self) (str_int avid) ''video_only'') \<and>
    proxy w = Assigned px \<and>
    (\<forall>p \<in> set (mp4_paths (walk E (merge_dir self avid))). \<exists>rc. ffmpeg E p = Exited rc) \<longrightarrow>
      trace (snd (guarded_item E self avid index w)) =
        trace w @
        [Makedirs (merge_dir self avid),
         Makedirs (path_join3 (output_dir self) (str_int avid) ''audio_only''),
         Makedirs (path_join3 (output_dir self) (str_int avid) ''video_only''),
         Shell (yutto_command avid (proxy_text px) (merge_dir self avid))] @
        map (\<lambda>p. Exec (ffmpeg_command p)) (mp4_paths (walk E (merge_dir self avid))) @
        (if index mod 1000 = 0 then [Prompt] else [])) \<and>
   (\<exists>es. trace (snd (run E self w)) = trace w @ es \<and>
        (\<forall>argv. Exec argv \<in> set es \<longrightarrow>
           (\<exists>column completed.
              csv E = Avid_Column column \<and> load_progress (progress_log w) = Inr completed \<and>
              (\<exists>a \<in> set (remaining_avids (unique column) completed).
                 \<exists>p \<in> set (mp4_paths (walk E (merge_dir self a))). argv = ffmpeg_command p)))) \<and>
   set (mp4_paths dirs) =
     {path_join r f | r fs f. (r, fs) \<in> set dirs \<and> f \<in> set fs \<and> endswith f ''.mp4''} \<and>
   last (ffmpeg_command video_path) = fst (splitext video_path) @ ''.jpg'' \<and>
   (CHR ''/'' \<notin> set stem \<and> (\<exists>c \<in> set stem. c \<noteq> CHR ''.'') \<longrightarrow>
      cover_path (path_join root_dir (stem @ ''.mp4'')) = path_join root_dir stem @ ''.jpg'')"
proof -
  let ?full = "map (\<lambda>p. Exec (ffmpeg_command p)) (mp4_paths (walk E (merge_dir self avid)))"
  from process_item_execs [of E self avid index w] obtain es where
    es: "trace (snd (process_item E self avid index w)) = trace w @ es"
      "prefix (filter is_exec es) ?full"
      "\<forall>v. (\<exists>r. fst (create_directories E self avid w) = Inr r) \<and> proxy w = Assigned v \<and>
              (\<forall>p \<in> set (mp4_paths (walk E (merge_dir self avid))). \<exists>rc. ffmpeg E p = Exited rc) \<longrightarrow>
           es = [Makedirs (merge_dir self avid),
                 Makedirs (path_join3 (output_dir self) (str_int avid) ''audio_only''),
                 Makedirs (path_join3 (output_dir self) (str_int avid) ''video_only''),
                 Shell (yutto_command avid (proxy_text v) (merge_dir self avid))] @
                ?full @ (if index mod 1000 = 0 then [Prompt] else [])"
    by blast
  have gt: "trace (snd (guarded_item E self avid index w)) = trace w @ es"
    using es(1) by (simp only: guarded_item_trace)
  have 1: "\<exists>es. trace (snd (guarded_item E self avid index w)) = trace w @ es \<and>
         prefix (filter is_exec es) ?full"
    using gt es(2) by blast
  have 2: "\<not> makedirs_fails E (merge_dir self avid) \<and>
    \<not> makedirs_fails E (path_join3 (output_dir self) (str_int avid) ''audio_only'') \<and>
    \<not> makedirs_fails E (path_join3 (output_dir self) (str_int avid) ''video_only'') \<and>
    proxy w = Assigned px \<and>
    (\<forall>p \<in> set (mp4_paths (walk E (merge_dir self avid))). \<exists>rc. ffmpeg E p = Exited rc) \<longrightarrow>
      trace (snd (guarded_item E self avid index w)) =
        trace w @
        [Makedirs (merge_dir self avid),
         Makedirs (path_join3 (output_dir self) (str_int avid) ''audio_only''),
         Makedirs (path_join3 (output_dir self) (str_int avid) ''video_only''),
         Shell (yutto_command avid (proxy_text px) (merge_dir self avid))] @
        ?full @ (if index mod 1000 = 0 then [Prompt] else [])"
  proof
    assume h: "\<not> makedirs_fails E (merge_dir self avid) \<and>
      \<not> makedirs_fails E (path_join3 (output_dir self) (str_int avid) ''audio_only'') \<and>
      \<not> makedirs_fails E (path_join3 (output_dir self) (str_int avid) ''video_only'') \<and>
      proxy w = Assigned px \<and>
      (\<forall>p \<in> set (mp4_paths (walk E (merge_dir self avid))). \<exists>rc. ffmpeg E p = Exited rc)"
    then have "\<exists>r. fst (create_directories E self avid w) = Inr r"
      using create_directories_succeeds [of E self avid w] by blast
    with h es(3) have "es = [Makedirs (merge_dir self avid),
         Makedirs (path_join3 (output_dir self) (str_int avid) ''audio_only''),
         Makedirs (path_join3 (output_dir self) (str_int avid) ''video_only''),
         Shell (yutto_command avid (proxy_text px) (merge_dir self avid))] @
        ?full @ (if index mod 1000 = 0 then [Prompt] else [])"
      by blast
    with gt show "trace (snd (guarded_item E self avid index w)) =
        trace w @
        [Makedirs (merge_dir self avid),
         Makedirs (path_join3 (output_dir self) (str_int avid) ''audio_only''),
         Makedirs (path_join3 (output_dir self) (str_int avid) ''video_only''),
         Shell (yutto_command avid (proxy_text px) (merge_dir self avid))] @
        ?full @ (if index mod 1000 = 0 then [Prompt] else [])"
      by simp
  qed
  note 3 = run_execs [of E self w]
  note 4 = mp4_paths_set [of dirs]
  have 5: "last (ffmpeg_command video_path) = fst (splitext video_path) @ ''.jpg''"
    by (simp add: ffmpeg_command_def cover_path_def)
  have 6: "CHR ''/'' \<notin> set stem \<and> (\<exists>c \<in> set stem. c \<noteq> CHR ''.'') \<longrightarrow>
      cover_path (path_join root_dir (stem @ ''.mp4'')) = path_join root_dir stem @ ''.jpg''"
    using cover_path_mp4 [of stem root_dir] by blast
  show ?thesis
    by (rule conjI [OF 1 conjI [OF 2 conjI [OF 3 conjI [OF 4 conjI [OF 5 6]]]]])
qed

theorem cover_extraction_on_mp4_files_witness:
  "trace (snd (guarded_item env_all_well example_downloader 101 1 first_lease_world)) =
     [Http_Get ''http://issuer/get'',
      Makedirs ''small_output/batch/101/merge'',
      Makedirs ''small_output/batch/101/audio_only'',
      Makedirs ''small_output/batch/101/video_only'',
      Shell (yutto_command 101 ''http://10.0.0.1:8080'' ''small_output/batch/101/merge''),
      Exec [''ffmpeg'', ''-loglevel'', ''quiet'', ''-i'', ''small_output/batch/101/merge/video.mp4'',
            ''-map'', ''0:v'', ''-map'', ''-0:V'', ''-c'', ''copy'',
            ''small_output/batch/101/merge/video.jpg'']] \<and>
   mp4_paths (walk env_all_well (merge_dir example_downloader 101)) =
     [''small_output/batch/101/merge/video.mp4''] \<and>
   cover_path (path_join ''small_output/batch/101/merge'' ''video.mp4'') =
     ''small_output/batch/101/merge/video.jpg''"
proof -
  let ?E = env_all_well
  let ?D = example_downloader
  let ?px = "Some ''http://10.0.0.1:8080''"
  have h: "\<not> makedirs_fails ?E (merge_dir ?D 101) \<and>
    \<not> makedirs_fails ?E (path_join3 (output_dir ?D) (str_int 101) ''audio_only'') \<and>
    \<not> makedirs_fails ?E (path_join3 (output_dir ?D) (str_int 101) ''video_only'') \<and>
    proxy first_lease_world = Assigned ?px \<and>
    (\<forall>p \<in> set (mp4_paths (walk ?E (merge_dir ?D 101))). \<exists>rc. ffmpeg ?E p = Exited rc)"
    by (simp add: env_all_well_def first_lease_world_def)
  have m: "mp4_paths (walk ?E (merge_dir ?D 101)) = [''small_output/batch/101/merge/video.mp4'']"
    by code_simp
  have rhs: "trace first_lease_world @
        [Makedirs (merge_dir ?D 101),
         Makedirs (path_join3 (output_dir ?D) (str_int 101) ''audio_only''),
         Makedirs (path_join3 (output_dir ?D) (str_int 101) ''video_only''),
         Shell (yutto_command 101 (proxy_text ?px) (merge_dir ?D 101))] @
        map (\<lambda>p. Exec (ffmpeg_command p)) (mp4_paths (walk ?E (merge_dir ?D 101))) @
        (if (1::nat) mod 1000 = 0 then [Prompt] else []) =
     [Http_Get ''http://issuer/get'',
      Makedirs ''small_output/batch/101/merge'',
      Makedirs ''small_output/batch/101/audio_only'',
      Makedirs ''small_output/batch/101/video_only'',
      Shell (yutto_command 101 ''http://10.0.0.1:8080'' ''small_output/batch/101/merge''),
      Exec [''ffmpeg'', ''-loglevel'', ''quiet'', ''-i'', ''small_output/batch/101/merge/video.mp4'',
            ''-map'', ''0:v'', ''-map'', ''-0:V'', ''-c'', ''copy'',
            ''small_output/batch/101/merge/video.jpg'']]"
    by code_simp
  have s: "CHR ''/'' \<notin> set ''video'' \<and> (\<exists>c \<in> set ''video''. c \<noteq> CHR ''.'')" by simp
  have j: "path_join ''small_output/batch/101/merge'' ''video'' @ ''.jpg'' =
      ''small_output/batch/101/merge/video.jpg''"
    by code_simp
  note t = cover_extraction_on_mp4_files [of ?E ?D 101 1 first_lease_world ?px "[]" "''x''" "''video''"
      "''small_output/batch/101/merge''"]
  from t h have "trace (snd (guarded_item ?E ?D 101 1 first_lease_world)) =
      trace first_lease_world @
        [Makedirs (merge_dir ?D 101),
         Makedirs (path_join3 (output_dir ?D) (str_int 101) ''audio_only''),
         Makedirs (path_join3 (output_dir ?D) (str_int 101) ''video_only''),
         Shell (yutto_command 101 (proxy_text ?px) (merge_dir ?D 101))] @
        map (\<lambda>p. Exec (ffmpeg_command p)) (mp4_paths (walk ?E (merge_dir ?D 101))) @
        (if (1::nat) mod 1000 = 0 then [Prompt] else [])"
    by blast
  then have a: "trace (snd (guarded_item ?E ?D 101 1 first_lease_world)) =
     [Http_Get ''http://issuer/get'',
      Makedirs ''small_output/batch/101/merge'',
      Makedirs ''small_output/batch/101/audio_only'',
      Makedirs ''small_output/batch/101/video_only'',
      Shell (yutto_command 101 ''http://10.0.0.1:8080'' ''small_output/batch/101/merge''),
      Exec [''ffmpeg'', ''-loglevel'', ''quiet'', ''-i'', ''small_output/batch/101/merge/video.mp4'',
            ''-map'', ''0:v'', ''-map'', ''-0:V'', ''-c'', ''copy'',
            ''small_output/batch/101/merge/video.jpg'']]"
    by (simp only: rhs)
  from t s have "cover_path (path_join ''small_output/batch/101/merge'' (''video'' @ ''.mp4'')) =
      path_join ''small_output/batch/101/merge'' ''video'' @ ''.jpg''"
    by blast
  then have c: "cover_path (path_join ''small_output/batch/101/merge'' ''video.mp4'') =
     ''small_output/batch/101/merge/video.jpg''"
    using j by simp
  from a m c show ?thesis by blast
qed

text \<open>
  Claim C10 as stated fails. With two videos in the merge directory and a cover extraction
  that times out on the first, the walk ends with \<^verbatim>\<open>TimeoutExpired\<close> and the second
  video is never handed to the extraction tool. And for a file named \<^verbatim>\<open>.mp4\<close>, which
  \<^verbatim>\<open>os.path.splitext\<close> takes to have no extension, the image path is the video path
  with \<^verbatim>\<open>.jpg\<close> appended.
\<close>

theorem cover_walk_stops_at_timeout:
  "endswith ''b.mp4'' ''.mp4'' \<and>
   fst (cover_walk env_cover_times_out
         [(''small_output/batch/101/merge'', [''a.mp4'', ''b.mp4''])] first_lease_world) =
     Inl TimeoutExpired \<and>
   trace (snd (cover_walk env_cover_times_out
         [(''small_output/batch/101/merge'', [''a.mp4'', ''b.mp4''])] first_lease_world)) =
     [Http_Get ''http://issuer/get'', Exec (ffmpeg_command ''small_output/batch/101/merge/a.mp4'')] \<and>
   endswith ''.mp4'' ''.mp4'' \<and>
   cover_path ''small_output/batch/101/merge/.mp4'' = ''small_output/batch/101/merge/.mp4.jpg''"
  by code_simp

end
